theory Spec2Isabelle
  imports Main
begin

section \<open>Go strings, runes and the standard-library tables\<close>

text \<open>
  A Go string is a byte sequence that the program only ever reads through the UTF-8
  decoder (\<^verbatim>\<open>utf8.DecodeRuneInString\<close>, \<^verbatim>\<open>range\<close>, \<^verbatim>\<open>strings.Map\<close>,
  \<^verbatim>\<open>strings.TrimLeftFunc\<close>) and only ever cuts at the positions the decoder returns.
  A string is therefore modelled as the sequence of its decoding steps: each step is
  either a well-formed code point or a single byte that does not start a well-formed
  encoding. The decoder reports the latter as \<^verbatim>\<open>utf8.RuneError\<close> (U+FFFD) of width one.
  Widths are counted in decoding steps.
\<close>

type_synonym rune = int

datatype gochar = Rune rune | Invalid char

type_synonym gostring = "gochar list"

definition RuneError :: rune where
  "RuneError = 0xFFFD"

fun decode :: "gochar \<Rightarrow> rune" where
  "decode (Rune r) = r"
| "decode (Invalid b) = RuneError"

text \<open>\<^verbatim>\<open>utf8.DecodeRuneInString\<close>: the empty string gives \<^verbatim>\<open>(RuneError, 0)\<close>.\<close>

fun DecodeRuneInString :: "gostring \<Rightarrow> rune \<times> nat" where
  "DecodeRuneInString [] = (RuneError, 0)"
| "DecodeRuneInString (u # rest) = (decode u, 1)"

text \<open>An ASCII literal of the source, as a Go string.\<close>

definition gs :: "string \<Rightarrow> gostring" where
  "gs lit = map (\<lambda>c. Rune (of_char c)) lit"

text \<open>
  The package \<^verbatim>\<open>unicode\<close> is not part of the repository. Its answers are fixed here on
  ASCII and on U+FFFD (category So: no letter, no number, no case), and are a parameter
  everywhere else: the record below stands for the range tables of the Unicode version
  the program is linked with.
\<close>

record unicode =
  Letter :: "rune \<Rightarrow> bool"
  Number :: "rune \<Rightarrow> bool"
  Digit :: "rune \<Rightarrow> bool"
  Upper :: "rune \<Rightarrow> bool"
  lower_of :: "rune \<Rightarrow> rune"
  upper_of :: "rune \<Rightarrow> rune"

definition IsLetter :: "unicode \<Rightarrow> rune \<Rightarrow> bool" where
  "IsLetter U r =
     (if r < 0x80 then (0x41 \<le> r \<and> r \<le> 0x5A) \<or> (0x61 \<le> r \<and> r \<le> 0x7A)
      else if r = RuneError then False
      else Letter U r)"

definition IsNumber :: "unicode \<Rightarrow> rune \<Rightarrow> bool" where
  "IsNumber U r =
     (if r < 0x80 then 0x30 \<le> r \<and> r \<le> 0x39
      else if r = RuneError then False
      else Number U r)"

definition IsDigit :: "unicode \<Rightarrow> rune \<Rightarrow> bool" where
  "IsDigit U r =
     (if r < 0x80 then 0x30 \<le> r \<and> r \<le> 0x39
      else if r = RuneError then False
      else Digit U r)"

definition IsUpper :: "unicode \<Rightarrow> rune \<Rightarrow> bool" where
  "IsUpper U r =
     (if r < 0x80 then 0x41 \<le> r \<and> r \<le> 0x5A
      else if r = RuneError then False
      else Upper U r)"

definition ToLower :: "unicode \<Rightarrow> rune \<Rightarrow> rune" where
  "ToLower U r =
     (if r < 0x80 then (if 0x41 \<le> r \<and> r \<le> 0x5A then r + 0x20 else r)
      else if r = RuneError then r
      else lower_of U r)"

definition ToUpper :: "unicode \<Rightarrow> rune \<Rightarrow> rune" where
  "ToUpper U r =
     (if r < 0x80 then (if 0x61 \<le> r \<and> r \<le> 0x7A then r - 0x20 else r)
      else if r = RuneError then r
      else upper_of U r)"

text \<open>
  \<^verbatim>\<open>strings.Map\<close>: the mapping is applied to every decoded rune; a negative result drops
  the character, any other result is written as a well-formed code point.
\<close>

definition strings_Map :: "(rune \<Rightarrow> rune) \<Rightarrow> gostring \<Rightarrow> gostring" where
  "strings_Map mapping s =
     concat (map (\<lambda>u. let r = mapping (decode u) in if r < 0 then [] else [Rune r]) s)"

text \<open>\<^verbatim>\<open>strings.TrimLeftFunc\<close>: the longest prefix of runes satisfying \<open>f\<close> is removed.\<close>

definition TrimLeftFunc :: "gostring \<Rightarrow> (rune \<Rightarrow> bool) \<Rightarrow> gostring" where
  "TrimLeftFunc s f = dropWhile (\<lambda>u. f (decode u)) s"

subsection \<open>Package go/token\<close>

definition go_keywords :: "string list" where
  "go_keywords =
     [''break'', ''case'', ''chan'', ''const'', ''continue'', ''default'', ''defer'',
      ''else'', ''fallthrough'', ''for'', ''func'', ''go'', ''goto'', ''if'', ''import'',
      ''interface'', ''map'', ''package'', ''range'', ''return'', ''select'', ''struct'',
      ''switch'', ''type'', ''var'']"

definition IsKeyword :: "gostring \<Rightarrow> bool" where
  "IsKeyword name = (name \<in> set (map gs go_keywords))"

text \<open>
  \<^verbatim>\<open>token.IsIdentifier\<close>: not empty, not a keyword, every rune a letter or \<^verbatim>\<open>_\<close>, or a
  digit when it is not the first one.
\<close>

fun ident_runes :: "unicode \<Rightarrow> bool \<Rightarrow> gostring \<Rightarrow> bool" where
  "ident_runes U first [] = True"
| "ident_runes U first (u # rest) =
     (let c = decode u in
      if \<not> IsLetter U c \<and> c \<noteq> 0x5F \<and> (first \<or> \<not> IsDigit U c) then False
      else ident_runes U False rest)"

definition IsIdentifier :: "unicode \<Rightarrow> gostring \<Rightarrow> bool" where
  "IsIdentifier U name =
     (if name = [] \<or> IsKeyword name then False else ident_runes U True name)"

definition IsExported :: "unicode \<Rightarrow> gostring \<Rightarrow> bool" where
  "IsExported U name = (let (ch, size) = DecodeRuneInString name in IsUpper U ch)"

section \<open>The name sanitizer\<close>

definition onlyValidIdentChars :: "unicode \<Rightarrow> rune \<Rightarrow> rune" where
  "onlyValidIdentChars U in_rune =
     (if in_rune = 0x5F then in_rune
      else if IsLetter U in_rune \<or> IsNumber U in_rune then in_rune
      else - 1)"

definition predeclared_names :: "string list" where
  "predeclared_names =
     [''bool'', ''byte'', ''complex64'', ''complex128'', ''error'', ''float32'',
      ''float64'', ''int'', ''int8'', ''int16'', ''int32'', ''int64'', ''rune'', ''string'',
      ''uint'', ''uint8'', ''uint16'', ''uint32'', ''uint64'', ''uintptr'', ''true'',
      ''false'', ''iota'', ''nil'', ''append'', ''cap'', ''close'', ''complex'', ''copy'',
      ''delete'', ''imag'', ''len'', ''make'', ''new'', ''panic'', ''print'', ''println'',
      ''real'', ''recover'', ''any'']"

definition predeclared :: "gostring \<Rightarrow> bool" where
  "predeclared name = (name \<in> set (map gs predeclared_names))"

definition defaultSafeNameFunc :: "unicode \<Rightarrow> gostring \<Rightarrow> gostring" where
  "defaultSafeNameFunc U name0 =
     (let name = strings_Map (onlyValidIdentChars U) name0 in
      if name = [] then gs ''v''
      else
        let name = (if IsKeyword name \<or> predeclared name then gs ''_'' @ name else name);
            (r, size) = DecodeRuneInString name;
            name = (if \<not> IsLetter U r \<and> r \<noteq> 0x5F then gs ''_'' @ name else name)
        in name)"

section \<open>The suggestion heuristic\<close>

text \<open>
  The scanning loop of \<^verbatim>\<open>defaultSuggestVarNameFunc\<close>: \<open>slice\<close> is what is left of the
  input, \<open>u0\<close> tells whether the previous rune was upper case, \<open>buf\<close> is the builder.
  The result is the flag \<^verbatim>\<open>words\<close> and the builder's content.
\<close>

fun suggest_scan :: "unicode \<Rightarrow> gostring \<Rightarrow> bool \<Rightarrow> gostring \<Rightarrow> bool \<times> gostring" where
  "suggest_scan U [] u0 buf = (True, buf)"
| "suggest_scan U (u # rest) u0 buf =
     (let r = decode u in
      if r = RuneError then (False, buf)
      else
        let u1 = IsUpper U r in
        if u0 \<and> u1 then (False, buf)
        else suggest_scan U rest u1 (if u1 then buf @ [Rune (ToLower U r)] else buf))"

text \<open>The body of \<^verbatim>\<open>defaultSuggestVarNameFunc\<close>, before the deferred function runs.\<close>

definition suggest_body :: "unicode \<Rightarrow> gostring \<Rightarrow> gostring" where
  "suggest_body U input =
     (let (r, size) = DecodeRuneInString input;
          buf = [Rune (ToLower U r)];
          (words, buf) = suggest_scan U (drop size input) (IsUpper U r) buf
      in if words then buf
         else
           let slice = TrimLeftFunc input (\<lambda>r. \<not> IsLetter U r);
               (r, size) = DecodeRuneInString slice
           in if r = RuneError then gs ''v'' else [Rune (ToLower U r)])"

definition defaultSuggestVarNameFunc :: "unicode \<Rightarrow> gostring \<Rightarrow> gostring" where
  "defaultSuggestVarNameFunc U input =
     (let ret = suggest_body U input;
          ret = (if ret = gs ''_'' then gs ''v'' else ret)
      in defaultSafeNameFunc U ret)"

section \<open>The scope tree\<close>

text \<open>
  A \<^verbatim>\<open>*Scope\<close> is an address into the store together with the pointer to its parent:
  the field \<^verbatim>\<open>parent\<close> is written once, by \<^verbatim>\<open>withParent\<close> inside \<^verbatim>\<open>New\<close>, and
  nothing changes it afterwards, so the chain of ancestors of a scope is fixed when the
  scope is made. The fields that do change live in the store, one cell per address;
  the cell of a scope that was never touched is the zero value \<^verbatim>\<open>Scope{}\<close>.
  A \<^verbatim>\<open>nil\<close> map and an empty map read the same, so \<^verbatim>\<open>defs\<close> is a map that may be
  empty, and the allocation at the head of \<^verbatim>\<open>define\<close> changes nothing. A policy
  override is a pure function of the strings it is given; an override of the
  unique-name policy gets the name and the flag, not the scope.
\<close>

record Scope =
  defs :: "gostring \<rightharpoonup> bool"
  safeNameFunc :: "(gostring \<Rightarrow> gostring) option"
  uniqueNameFunc :: "(gostring \<Rightarrow> bool \<Rightarrow> gostring) option"
  suggestVarNameFunc :: "(gostring \<Rightarrow> gostring) option"

datatype sref = SRef (addr: nat) (parent: "sref option")

type_synonym store = "nat \<Rightarrow> Scope"

definition zero_Scope :: Scope where
  "zero_Scope = \<lparr>defs = Map.empty, safeNameFunc = None, uniqueNameFunc = None,
                 suggestVarNameFunc = None\<rparr>"

datatype panic =
  NoUniqueName gostring nat
| NotValidIdentifier gostring
| NoExportedForm gostring

fun defined :: "store \<Rightarrow> sref \<Rightarrow> gostring \<Rightarrow> bool \<Rightarrow> bool" where
  "defined h (SRef a par) name recursive =
     (if defs (h a) name = Some True then True
      else if \<not> recursive then False
      else case par of None \<Rightarrow> False | Some p \<Rightarrow> defined h p name True)"

fun safeName :: "unicode \<Rightarrow> store \<Rightarrow> sref \<Rightarrow> gostring \<Rightarrow> gostring" where
  "safeName U h (SRef a par) name =
     (case safeNameFunc (h a) of
        Some f \<Rightarrow> f name
      | None \<Rightarrow>
          (case par of
             Some p \<Rightarrow> safeName U h p name
           | None \<Rightarrow> defaultSafeNameFunc U name))"

text \<open>\<^verbatim>\<open>fmt.Sprintf("%d", ndx)\<close> for a non-negative \<open>ndx\<close>.\<close>

fun itoa :: "nat \<Rightarrow> gostring" where
  "itoa n =
     (if n < 10 then [Rune (0x30 + int n)]
      else itoa (n div 10) @ [Rune (0x30 + int (n mod 10))])"

declare itoa.simps [simp del]

definition maxAttempts :: nat where
  "maxAttempts = 999"

text \<open>The \<^verbatim>\<open>for\<close> loop of \<^verbatim>\<open>defaultUniqueNameFunc\<close>, from the index \<open>ndx\<close> on.\<close>

function attempts ::
  "store \<Rightarrow> sref \<Rightarrow> gostring \<Rightarrow> gostring \<Rightarrow> bool \<Rightarrow> nat \<Rightarrow> panic + gostring" where
  "attempts h s name safe recursive ndx =
     (if ndx < maxAttempts then
        (let nameN = safe @ itoa ndx in
         if \<not> defined h s nameN recursive then Inr nameN
         else attempts h s name safe recursive (ndx + 1))
      else Inl (NoUniqueName name maxAttempts))"
  by pat_completeness auto
termination
  by (relation "measure (\<lambda>(h, s, name, safe, recursive, ndx). maxAttempts - ndx)") auto

declare attempts.simps [simp del]

definition defaultUniqueNameFunc ::
  "unicode \<Rightarrow> store \<Rightarrow> sref \<Rightarrow> gostring \<Rightarrow> bool \<Rightarrow> panic + gostring" where
  "defaultUniqueNameFunc U h s name recursive =
     attempts h s name (safeName U h s name) recursive 0"

fun uniqueName ::
  "unicode \<Rightarrow> store \<Rightarrow> sref \<Rightarrow> gostring \<Rightarrow> bool \<Rightarrow> panic + gostring" where
  "uniqueName U h (SRef a par) name recursive =
     (case uniqueNameFunc (h a) of
        Some f \<Rightarrow> Inr (f name recursive)
      | None \<Rightarrow>
          (case par of
             Some p \<Rightarrow> uniqueName U h p name recursive
           | None \<Rightarrow> defaultUniqueNameFunc U h (SRef a par) name recursive))"

fun suggestVarName :: "unicode \<Rightarrow> store \<Rightarrow> sref \<Rightarrow> gostring \<Rightarrow> gostring" where
  "suggestVarName U h (SRef a par) input =
     (case suggestVarNameFunc (h a) of
        Some f \<Rightarrow> f input
      | None \<Rightarrow>
          (case par of
             Some p \<Rightarrow> suggestVarName U h p input
           | None \<Rightarrow> defaultSuggestVarNameFunc U input))"

text \<open>\<^verbatim>\<open>s.defs[name] = true\<close>\<close>

definition set_def :: "store \<Rightarrow> nat \<Rightarrow> gostring \<Rightarrow> store" where
  "set_def h a name = h(a := (h a)\<lparr>defs := (defs (h a))(name \<mapsto> True)\<rparr>)"

text \<open>
  \<^verbatim>\<open>define\<close> (here \<open>define_name\<close>) returns the name and the store it leaves; when it panics, the panic value
  and the store at that moment. It need not return (an override of the unique-name
  policy may answer a taken name for ever): not returning is \<open>None\<close>.
\<close>

partial_function (option) define_name ::
  "unicode \<Rightarrow> store \<Rightarrow> sref \<Rightarrow> gostring \<Rightarrow> bool \<Rightarrow> ((panic + gostring) \<times> store) option" where
  "define_name U h s safe recursive =
     (if \<not> defined h s safe recursive then
        (let h1 = set_def h (addr s) safe in
         if recursive \<and> parent s \<noteq> None then
           Option.bind (define_name U h1 (the (parent s)) safe recursive)
             (\<lambda>(r, h2). case r of Inl e \<Rightarrow> Some (Inl e, h2) | Inr _ \<Rightarrow> Some (Inr safe, h2))
         else Some (Inr safe, h1))
      else
        (case uniqueName U h s safe recursive of
           Inl e \<Rightarrow> Some (Inl e, h)
         | Inr n \<Rightarrow> define_name U h s n recursive))"

declare define_name.simps [code]

definition Claim ::
  "unicode \<Rightarrow> store \<Rightarrow> sref \<Rightarrow> gostring \<Rightarrow> ((panic + gostring) \<times> store) option" where
  "Claim U h s name = define_name U h s (safeName U h s name) False"

definition ClaimGlobal ::
  "unicode \<Rightarrow> store \<Rightarrow> sref \<Rightarrow> gostring \<Rightarrow> ((panic + gostring) \<times> store) option" where
  "ClaimGlobal U h s name = define_name U h s (safeName U h s name) True"

definition Suggest :: "unicode \<Rightarrow> store \<Rightarrow> sref \<Rightarrow> gostring \<Rightarrow> gostring" where
  "Suggest U h s input = suggestVarName U h s input"

section \<open>Exported and unexported forms\<close>

text \<open>
  \<^verbatim>\<open>exported\<close> rewrites the first rune to upper case and, when the result is still not
  exported, goes on with \<^verbatim>\<open>name[size:]\<close>, where \<open>size\<close> is the width of the rune it
  replaced. That is the rest after the first rune: a rune whose upper-case form is not
  upper case is either left as it is by \<^verbatim>\<open>unicode.ToUpper\<close> or sent to a title-case
  rune of the same encoded width.
\<close>

datatype error = NoUppercaseLetters

definition unexported :: "unicode \<Rightarrow> gostring \<Rightarrow> gostring" where
  "unexported U name =
     (if \<not> IsExported U name then name
      else let (n, size) = DecodeRuneInString name
           in Rune (ToLower U n) # drop size name)"

definition Unexported :: "unicode \<Rightarrow> gostring \<Rightarrow> panic + gostring" where
  "Unexported U name =
     (if \<not> IsIdentifier U name then Inl (NotValidIdentifier name)
      else Inr (unexported U name))"

function exported :: "unicode \<Rightarrow> gostring \<Rightarrow> error + gostring" where
  "exported U name =
     (if name = [] then Inl NoUppercaseLetters
      else if IsExported U name then Inr name
      else
        let (n, size) = DecodeRuneInString name;
            l = ToUpper U n;
            name' = Rune l # drop size name
        in if IsExported U name' then Inr name'
           else exported U (drop size name'))"
  by pat_completeness auto
termination
  by (relation "measure (\<lambda>(U, name). length name)") (auto simp: neq_Nil_conv)

declare exported.simps [simp del]

definition Exported :: "unicode \<Rightarrow> gostring \<Rightarrow> panic + gostring" where
  "Exported U name =
     (if \<not> IsIdentifier U name then Inl (NotValidIdentifier name)
      else case exported U name of
             Inl err \<Rightarrow> Inl (NoExportedForm name)
           | Inr ret \<Rightarrow> Inr ret)"

section \<open>Notions used to state the properties\<close>

text \<open>
  Tables in which nothing beyond ASCII is classified and the case mappings beyond ASCII
  are the identity. They serve to evaluate the functions on ASCII inputs.
\<close>

definition ascii_only :: unicode where
  "ascii_only =
     \<lparr>Letter = (\<lambda>r. False), Number = (\<lambda>r. False), Digit = (\<lambda>r. False),
      Upper = (\<lambda>r. False), lower_of = (\<lambda>r. r), upper_of = (\<lambda>r. r)\<rparr>"

text \<open>The runes that \<^verbatim>\<open>onlyValidIdentChars\<close> keeps.\<close>

definition valid_ident_rune :: "unicode \<Rightarrow> rune \<Rightarrow> bool" where
  "valid_ident_rune U r = (r = 0x5F \<or> IsLetter U r \<or> IsNumber U r)"

definition all_valid :: "unicode \<Rightarrow> gostring \<Rightarrow> bool" where
  "all_valid U s = list_all (\<lambda>u. \<exists>r. u = Rune r \<and> valid_ident_rune U r) s"

text \<open>
  The addresses of a scope and of its ancestors, the scope first and the root last.
\<close>

fun chain :: "sref \<Rightarrow> nat list" where
  "chain (SRef a par) = a # (case par of None \<Rightarrow> [] | Some p \<Rightarrow> chain p)"

text \<open>The local set of the scope at an address: the names its map holds as true.\<close>

definition local_set :: "store \<Rightarrow> nat \<Rightarrow> gostring set" where
  "local_set h a = {n. defs (h a) n = Some True}"

text \<open>
  The addresses a claim looks at and writes to: the whole chain for a recursive
  claim, the scope alone otherwise.
\<close>

definition targets :: "sref \<Rightarrow> bool \<Rightarrow> nat list" where
  "targets s recursive = (if recursive then chain s else [addr s])"

text \<open>The store in which a name has been added to the maps at the given addresses.\<close>

definition claim_at :: "store \<Rightarrow> nat list \<Rightarrow> gostring \<Rightarrow> store" where
  "claim_at h as n =
     (\<lambda>a. if a \<in> set as then (h a)\<lparr>defs := (defs (h a))(n \<mapsto> True)\<rparr> else h a)"

text \<open>
  The loop of the test \<^verbatim>\<open>TestScope_Claim\<close>: \<open>k\<close> calls of \<^verbatim>\<open>Claim\<close> with the same
  name on the same scope. The result holds the names returned, in order, and the
  store left; it is \<open>None\<close> as soon as a call panics or does not return.
\<close>

fun Claim_repeat ::
  "unicode \<Rightarrow> store \<Rightarrow> sref \<Rightarrow> gostring \<Rightarrow> nat \<Rightarrow> (gostring list \<times> store) option" where
  "Claim_repeat U h s name 0 = Some ([], h)"
| "Claim_repeat U h s name (Suc k) =
     (case Claim_repeat U h s name k of
        None \<Rightarrow> None
      | Some (got, h') \<Rightarrow>
          (case Claim U h' s name of
             Some (Inr g, h'') \<Rightarrow> Some (got @ [g], h'')
           | _ \<Rightarrow> None))"

text \<open>
  The names that repeated claims of \<^verbatim>\<open>v\<close> return on a root scope with the default
  policies, in order, and the state of the scope after \<open>j\<close> of them.
\<close>

definition v_names :: "gostring list" where
  "v_names = gs ''v'' # map (\<lambda>i. gs ''v'' @ itoa i) [0..<maxAttempts]"

definition v_inv :: "store \<Rightarrow> nat \<Rightarrow> nat \<Rightarrow> store \<Rightarrow> bool" where
  "v_inv h a j h' \<longleftrightarrow>
     safeNameFunc (h' a) = None \<and> uniqueNameFunc (h' a) = None \<and>
     (\<forall>n. defs (h' a) n = Some True \<longleftrightarrow> n \<in> set (take j v_names))"

text \<open>
  The scenario of \<^verbatim>\<open>TestScope_ClaimGlobal\<close>: a store of untouched scopes, the root
  \<^verbatim>\<open>g1 := &scope.Scope{}\<close> and its child \<^verbatim>\<open>s1 := g1.New()\<close>.
\<close>

definition fresh_store :: store where
  "fresh_store = (\<lambda>a. zero_Scope)"

definition g1 :: sref where
  "g1 = SRef 0 None"

definition s1 :: sref where
  "s1 = SRef 1 (Some g1)"

text \<open>
  The suggestion heuristic in words. Two runes next to each other are both upper case;
  the initials are the first rune and every later upper-case rune, in lower case; the
  fallback is the first letter of the input in lower case, or \<^verbatim>\<open>v\<close> when the input has
  no letter; the deferred function replaces a lone \<^verbatim>\<open>_\<close> and sanitizes.
\<close>

fun adjacent_upper :: "unicode \<Rightarrow> gostring \<Rightarrow> bool" where
  "adjacent_upper U (u # v # rest) =
     ((IsUpper U (decode u) \<and> IsUpper U (decode v)) \<or> adjacent_upper U (v # rest))"
| "adjacent_upper U [u] = False"
| "adjacent_upper U [] = False"

definition initials :: "unicode \<Rightarrow> gostring \<Rightarrow> gostring" where
  "initials U input =
     Rune (ToLower U (fst (DecodeRuneInString input))) #
     map (\<lambda>u. Rune (ToLower U (decode u))) (filter (\<lambda>u. IsUpper U (decode u)) (tl input))"

definition first_letter :: "unicode \<Rightarrow> gostring \<Rightarrow> gostring" where
  "first_letter U input =
     (case dropWhile (\<lambda>u. \<not> IsLetter U (decode u)) input of
        [] \<Rightarrow> gs ''v''
      | u # rest \<Rightarrow> [Rune (ToLower U (decode u))])"

definition finish :: "unicode \<Rightarrow> gostring \<Rightarrow> gostring" where
  "finish U ret = defaultSafeNameFunc U (if ret = gs ''_'' then gs ''v'' else ret)"

text \<open>
  The heuristic as the claim words it (the pass is given up when the input holds a rune
  that does not decode, wherever it stands), and as the code has it (the first rune is
  not looked at).
\<close>

definition suggest_as_claimed :: "unicode \<Rightarrow> gostring \<Rightarrow> gostring" where
  "suggest_as_claimed U input =
     finish U (if adjacent_upper U input \<or> (\<exists>u \<in> set input. decode u = RuneError)
               then first_letter U input else initials U input)"

definition suggest_as_amended :: "unicode \<Rightarrow> gostring \<Rightarrow> gostring" where
  "suggest_as_amended U input =
     finish U (if adjacent_upper U input \<or> (\<exists>u \<in> set (tl input). decode u = RuneError)
               then first_letter U input else initials U input)"

text \<open>Five bytes: the byte \<^verbatim>\<open>0xFF\<close>, which starts no encoding, then \<^verbatim>\<open>AbCd\<close>.\<close>

definition malformed_first :: gostring where
  "malformed_first = Invalid (CHR 0xFF) # gs ''AbCd''"

text \<open>A rune that is not upper case and whose upper-case form is not upper case either.\<close>

definition no_public :: "unicode \<Rightarrow> gochar \<Rightarrow> bool" where
  "no_public U u = (\<not> IsUpper U (decode u) \<and> \<not> IsUpper U (ToUpper U (decode u)))"

text \<open>
  Two stores for the pair \<open>g1\<close>, \<open>s1\<close>: in the first the child has claimed \<^verbatim>\<open>v\<close>
  and the root nothing (\<^verbatim>\<open>s1.Claim("v")\<close>); in the second the root has claimed \<^verbatim>\<open>v0\<close>
  as well (\<^verbatim>\<open>g1.Claim("v0")\<close>). The child's own cell is the same in both.
\<close>

definition child_v :: store where
  "child_v = claim_at fresh_store [1] (gs ''v'')"

definition child_v_root_v0 :: store where
  "child_v_root_v0 = claim_at child_v [0] (gs ''v0'')"

text \<open>A store in which every scope holds all thousand names of \<open>v_names\<close>.\<close>

definition v_store :: store where
  "v_store = (\<lambda>a. zero_Scope\<lparr>defs := (\<lambda>n. if n \<in> set v_names then Some True else None)\<rparr>)"

text \<open>
  Tables that know one code point beyond ASCII: U+00BD, the vulgar fraction one half, of
  category No. It is in \<^verbatim>\<open>unicode.Number\<close>; it is neither a letter nor a decimal digit.
\<close>

definition number_half :: unicode where
  "number_half = ascii_only\<lparr>Number := (\<lambda>r. r = 0xBD)\<rparr>"

text \<open>
  The sanitizer as the specification words it: what is kept is a letter, a digit
  (\<^verbatim>\<open>unicode.IsDigit\<close>, the class \<^verbatim>\<open>token.IsIdentifier\<close> accepts) or \<^verbatim>\<open>_\<close>.
\<close>

definition sanitize_as_claimed :: "unicode \<Rightarrow> gostring \<Rightarrow> gostring" where
  "sanitize_as_claimed U s =
     (let n = map (\<lambda>u. Rune (decode u))
                (filter (\<lambda>u. IsLetter U (decode u) \<or> IsDigit U (decode u) \<or> decode u = 0x5F) s)
      in if n = [] then gs ''v''
         else
           let n = (if IsKeyword n \<or> predeclared n then gs ''_'' @ n else n)
           in if \<not> IsLetter U (decode (hd n)) \<and> decode (hd n) \<noteq> 0x5F then gs ''_'' @ n else n)"

text \<open>
  The name \<^verbatim>\<open>v\<close> followed by \<open>k\<close> zeros, and the state of the pair \<open>g1\<close>, \<open>s1\<close> in
  which the root has claimed nothing and the child the first \<open>j\<close> of these names.
\<close>

definition v_zeros :: "nat \<Rightarrow> gostring" where
  "v_zeros k = gs ''v'' @ replicate k (Rune 0x30)"

definition z_inv :: "nat \<Rightarrow> store \<Rightarrow> bool" where
  "z_inv j h \<longleftrightarrow>
     safeNameFunc (h 0) = None \<and> uniqueNameFunc (h 0) = None \<and>
     safeNameFunc (h 1) = None \<and> uniqueNameFunc (h 1) = None \<and>
     (\<forall>n. defs (h 0) n \<noteq> Some True) \<and>
     (\<forall>n. defs (h 1) n = Some True \<longleftrightarrow> n \<in> v_zeros ` {..<j})"

text \<open>
  The store after a thousand calls \<^verbatim>\<open>g1.Claim("v")\<close>: the root holds \<^verbatim>\<open>v\<close>, \<^verbatim>\<open>v0\<close>, ...,
  \<^verbatim>\<open>v998\<close>, every other scope is untouched.
\<close>

definition root_full :: store where
  "root_full =
     (\<lambda>a. if a = 0
          then zero_Scope\<lparr>defs := (\<lambda>n. if n \<in> set v_names then Some True else None)\<rparr>
          else zero_Scope)"

section \<open>Lemmas\<close>

subsection \<open>Reserved words\<close>

lemma IsKeyword_head:
  "IsKeyword name \<Longrightarrow> \<exists>r rest. name = Rune r # rest \<and> 0x61 \<le> r \<and> r \<le> 0x7A"
  unfolding IsKeyword_def go_keywords_def by (auto simp: gs_def)

lemma predeclared_head:
  "predeclared name \<Longrightarrow> \<exists>r rest. name = Rune r # rest \<and> 0x61 \<le> r \<and> r \<le> 0x7A"
  unfolding predeclared_def predeclared_names_def by (auto simp: gs_def)

subsection \<open>The sanitizer\<close>

lemma onlyValidIdentChars_eq:
  "onlyValidIdentChars U r = (if valid_ident_rune U r then r else - 1)"
  by (simp add: onlyValidIdentChars_def valid_ident_rune_def)

lemma valid_ident_rune_nonneg: "valid_ident_rune U r \<Longrightarrow> 0 \<le> r"
  by (auto simp: valid_ident_rune_def IsLetter_def IsNumber_def RuneError_def split: if_splits)

lemma strings_Map_filter:
  "strings_Map (onlyValidIdentChars U) s =
     map (\<lambda>u. Rune (decode u)) (filter (\<lambda>u. valid_ident_rune U (decode u)) s)"
proof (induction s)
  case Nil
  show ?case by (simp add: strings_Map_def)
next
  case (Cons u s)
  then show ?case
    using valid_ident_rune_nonneg [of U "decode u"]
    by (auto simp: strings_Map_def onlyValidIdentChars_eq)
qed

lemma all_valid_Map: "all_valid U (strings_Map (onlyValidIdentChars U) s)"
  by (induction s) (auto simp: strings_Map_filter all_valid_def)

lemma Map_all_valid: "all_valid U s \<Longrightarrow> strings_Map (onlyValidIdentChars U) s = s"
  by (induction s) (auto simp: strings_Map_filter all_valid_def)

lemma underscore_not_reserved:
  "\<not> IsKeyword (gs ''_'' @ x)" "\<not> predeclared (gs ''_'' @ x)"
  using IsKeyword_head [of "gs ''_'' @ x"] predeclared_head [of "gs ''_'' @ x"]
  by (auto simp: gs_def)

lemma sanitize_fixed:
  assumes "all_valid U s" "s \<noteq> []" "\<not> IsKeyword s" "\<not> predeclared s"
    "IsLetter U (decode (hd s)) \<or> decode (hd s) = 0x5F"
  shows "defaultSafeNameFunc U s = s"
  using assms by (cases s) (auto simp: defaultSafeNameFunc_def Map_all_valid Let_def)

lemma sanitize_v: "defaultSafeNameFunc U (gs ''v'') = gs ''v''"
  by (simp add: defaultSafeNameFunc_def gs_def strings_Map_def onlyValidIdentChars_def
      IsLetter_def IsKeyword_def predeclared_def go_keywords_def predeclared_names_def)

text \<open>What the sanitizer returns, by cases on the filtered string.\<close>

lemma sanitize_cases:
  fixes U s
  defines "n \<equiv> strings_Map (onlyValidIdentChars U) s"
  shows "defaultSafeNameFunc U s =
     (if n = [] then gs ''v''
      else if IsKeyword n \<or> predeclared n then gs ''_'' @ n
      else if \<not> IsLetter U (decode (hd n)) \<and> decode (hd n) \<noteq> 0x5F then gs ''_'' @ n
      else n)"
proof (cases n)
  case Nil
  then show ?thesis by (simp add: defaultSafeNameFunc_def n_def [symmetric])
next
  case (Cons u rest)
  then show ?thesis
    by (auto simp: defaultSafeNameFunc_def n_def [symmetric] Let_def gs_def)
qed

subsection \<open>The scope tree\<close>

lemma defined_iff:
  "defined h s n recursive = (\<exists>a \<in> set (targets s recursive). defs (h a) n = Some True)"
proof (induction h s n recursive rule: defined.induct)
  case (1 h a par name recursive)
  show ?case
  proof (cases par)
    case None
    then show ?thesis by (simp add: targets_def)
  next
    case (Some p)
    with 1 [of p] show ?thesis by (auto simp: targets_def)
  qed
qed

lemma claim_at_single: "set_def h a n = claim_at h [a] n"
  by (auto simp: set_def_def claim_at_def)

lemma claim_at_Cons: "claim_at (set_def h a n) as n = claim_at h (a # as) n"
  by (auto simp: set_def_def claim_at_def)

lemma define_name_result:
  assumes run: "define_name U h s n recursive = Some y"
  shows "(recursive \<longrightarrow> distinct (chain s)) \<longrightarrow>
         (\<not> defined h s n recursive \<longrightarrow> y = (Inr n, claim_at h (targets s recursive) n)) \<and>
         ((\<exists>e. y = (Inl e, h)) \<or>
          (\<exists>r. y = (Inr r, claim_at h (targets s recursive) r) \<and> \<not> defined h s r recursive))"
proof (rule define_name.raw_induct [where P = "\<lambda>U h s n recursive y. (recursive \<longrightarrow> distinct (chain s)) \<longrightarrow>
         (\<not> defined h s n recursive \<longrightarrow> y = (Inr n, claim_at h (targets s recursive) n)) \<and>
         ((\<exists>e. y = (Inl e, h)) \<or>
          (\<exists>r. y = (Inr r, claim_at h (targets s recursive) r) \<and> \<not> defined h s r recursive))",
      OF _ run])
  fix f :: "unicode \<Rightarrow> store \<Rightarrow> sref \<Rightarrow> gostring \<Rightarrow> bool \<Rightarrow> ((panic + gostring) \<times> store) option"
    and U :: unicode and h s n recursive y
  assume IH: "\<And>U h s n recursive y. f U h s n recursive = Some y \<Longrightarrow> (recursive \<longrightarrow> distinct (chain s)) \<longrightarrow>
         (\<not> defined h s n recursive \<longrightarrow> y = (Inr n, claim_at h (targets s recursive) n)) \<and>
         ((\<exists>e. y = (Inl e, h)) \<or>
          (\<exists>r. y = (Inr r, claim_at h (targets s recursive) r) \<and> \<not> defined h s r recursive))"
  assume body: "(if \<not> defined h s n recursive then
        (let h1 = set_def h (addr s) n in
         if recursive \<and> parent s \<noteq> None then
           Option.bind (f U h1 (the (parent s)) n recursive)
             (\<lambda>(r, h2). case r of Inl e \<Rightarrow> Some (Inl e, h2) | Inr _ \<Rightarrow> Some (Inr n, h2))
         else Some (Inr n, h1))
      else
        (case uniqueName U h s n recursive of
           Inl e \<Rightarrow> Some (Inl e, h)
         | Inr n \<Rightarrow> f U h s n recursive)) = Some y"
  show "(recursive \<longrightarrow> distinct (chain s)) \<longrightarrow>
         (\<not> defined h s n recursive \<longrightarrow> y = (Inr n, claim_at h (targets s recursive) n)) \<and>
         ((\<exists>e. y = (Inl e, h)) \<or>
          (\<exists>r. y = (Inr r, claim_at h (targets s recursive) r) \<and> \<not> defined h s r recursive))"
    (is "_ \<longrightarrow> ?post")
  proof
    assume ds: "recursive \<longrightarrow> distinct (chain s)"
    show ?post
    proof (cases "defined h s n recursive")
      case True
      show ?thesis
      proof (cases "uniqueName U h s n recursive")
        case (Inl e)
        with True body have "y = (Inl e, h)" by simp
        with True show ?thesis by simp
      next
        case (Inr n')
        with True body have "f U h s n' recursive = Some y" by simp
        from IH [OF this] ds True show ?thesis by simp
      qed
    next
      case False
      show ?thesis
      proof (cases "recursive \<and> parent s \<noteq> None")
        case F2: False
        with False body have "y = (Inr n, set_def h (addr s) n)" by (auto simp: Let_def)
        moreover have "targets s recursive = [addr s]"
          using F2 by (cases s) (auto simp: targets_def)
        ultimately show ?thesis using False by (simp add: claim_at_single)
      next
        case True
        then obtain p where p: "parent s = Some p" and r: recursive by auto
        obtain a where s: "s = SRef a (Some p)" using p by (cases s) auto
        from False True body p obtain y' where
          y': "f U (set_def h a n) p n recursive = Some y'" and
          y: "(case y' of (r, h2) \<Rightarrow>
                 (case r of Inl e \<Rightarrow> Some (Inl e, h2) | Inr _ \<Rightarrow> Some (Inr n, h2))) = Some y"
          by (auto simp: Let_def s Option.bind_eq_Some_conv)
        have dp: "distinct (chain p)" and ap: "a \<notin> set (chain p)" using ds r s by auto
        have nd: "\<not> defined (set_def h a n) p n recursive"
          using False ap r unfolding defined_iff s by (auto simp: targets_def set_def_def)
        from IH [OF y'] dp nd r have "y' = (Inr n, claim_at (set_def h a n) (targets p recursive) n)"
          by simp
        with y have "y = (Inr n, claim_at h (a # chain p) n)"
          by (simp add: claim_at_Cons targets_def r)
        with False show ?thesis by (simp add: targets_def r s)
      qed
    qed
  qed
qed


lemma itoa_nonempty: "itoa n \<noteq> []"
  by (subst itoa.simps) simp

lemma itoa_inj: "itoa m = itoa n \<Longrightarrow> m = n"
proof (induction m arbitrary: n rule: less_induct)
  case (less m)
  show ?case
  proof (cases "m < 10")
    case True
    show ?thesis
    proof (cases "n < 10")
      case T2: True
      with True less.prems show ?thesis
        by (simp add: itoa.simps [of m] itoa.simps [of n])
    next
      case False
      with True less.prems itoa_nonempty [of "n div 10"] show ?thesis
        by (simp add: itoa.simps [of m] itoa.simps [of n] Cons_eq_append_conv)
    qed
  next
    case False
    show ?thesis
    proof (cases "n < 10")
      case True
      with False less.prems itoa_nonempty [of "m div 10"] show ?thesis
        by (simp add: itoa.simps [of m] itoa.simps [of n] append_eq_Cons_conv)
    next
      case F2: False
      with False less.prems have e: "itoa (m div 10) = itoa (n div 10)" "m mod 10 = n mod 10"
        by (simp_all add: itoa.simps [of m] itoa.simps [of n])
      from False have "m div 10 < m" by simp
      from less.IH [OF this e(1)] e(2) show ?thesis
        by (metis div_mult_mod_eq)
    qed
  qed
qed

lemma attempts_find:
  "ndx \<le> maxAttempts \<Longrightarrow>
   attempts h s name safe recursive ndx =
     (case List.find (\<lambda>i. \<not> defined h s (safe @ itoa i) recursive) [ndx..<maxAttempts] of
        Some i \<Rightarrow> Inr (safe @ itoa i)
      | None \<Rightarrow> Inl (NoUniqueName name maxAttempts))"
proof (induction h s name safe recursive ndx rule: attempts.induct)
  case (1 h s name safe recursive ndx)
  show ?case
  proof (cases "ndx < maxAttempts")
    case True
    then have u: "[ndx..<maxAttempts] = ndx # [ndx + 1..<maxAttempts]"
      by (simp add: upt_conv_Cons)
    show ?thesis
    proof (cases "defined h s (safe @ itoa ndx) recursive")
      case D: True
      from 1(1) [OF True refl] D True
      show ?thesis by (subst attempts.simps) (simp add: u D)
    next
      case False
      with True show ?thesis by (subst attempts.simps) (simp add: u)
    qed
  next
    case False
    then show ?thesis by (subst attempts.simps) simp
  qed
qed

lemma v_names_length: "length v_names = 1000"
  by (simp add: v_names_def maxAttempts_def)

lemma v_names_distinct: "distinct v_names"
  using itoa_nonempty
  by (auto simp: v_names_def distinct_map inj_on_def dest: itoa_inj)

lemma v_names_nth: "i < maxAttempts \<Longrightarrow> v_names ! Suc i = gs ''v'' @ itoa i"
  by (simp add: v_names_def)

declare defined.simps [simp del] safeName.simps [simp del] uniqueName.simps [simp del]

lemma define_name_free:
  "\<not> defined h s n False \<Longrightarrow> define_name U h s n False = Some (Inr n, set_def h (addr s) n)"
  by (subst define_name.simps) simp

lemma v_step:
  assumes inv: "v_inv h a j h'" and j: "j < 1000"
  shows "Claim U h' (SRef a None) (gs ''v'') = Some (Inr (v_names ! j), set_def h' a (v_names ! j))"
proof -
  let ?g = "SRef a None"
  have sn: "safeName U h' ?g (gs ''v'') = gs ''v''"
    using inv by (simp add: v_inv_def sanitize_v safeName.simps)
  have d: "defined h' ?g n False \<longleftrightarrow> n \<in> set (take j v_names)" for n
    using inv by (simp add: v_inv_def defined.simps)
  show ?thesis
  proof (cases j)
    case 0
    then have "\<not> defined h' ?g (gs ''v'') False" by (simp add: d)
    from define_name_free [OF this] 0 show ?thesis
      by (simp add: Claim_def sn v_names_def)
  next
    case (Suc m)
    with j have m: "m < maxAttempts" by (simp add: maxAttempts_def)
    have dv: "defined h' ?g (gs ''v'') False"
      by (simp add: d Suc v_names_def)
    have lt: "\<And>i. i < m \<Longrightarrow> defined h' ?g (gs ''v'' @ itoa i) False"
    proof -
      fix i assume i: "i < m"
      then have "v_names ! Suc i \<in> set (take j v_names)"
        using Suc j by (auto simp: in_set_conv_nth v_names_length intro!: exI [of _ "Suc i"])
      with i m show "defined h' ?g (gs ''v'' @ itoa i) False"
        by (simp add: d v_names_nth)
    qed
    have nm: "\<not> defined h' ?g (gs ''v'' @ itoa m) False"
    proof
      assume "defined h' ?g (gs ''v'' @ itoa m) False"
      then have "v_names ! j \<in> set (take j v_names)"
        using m by (simp add: d Suc v_names_nth)
      then obtain i where "i < j" "v_names ! i = v_names ! j"
        by (auto simp: in_set_conv_nth)
      with v_names_distinct j show False
        by (simp add: nth_eq_iff_index_eq v_names_length)
    qed
    have f: "List.find (\<lambda>i. \<not> defined h' ?g (gs ''v'' @ itoa i) False) [0..<maxAttempts] = Some m"
      using lt nm m by (auto simp: find_Some_iff)
    have un: "uniqueName U h' ?g (gs ''v'') False = Inr (gs ''v'' @ itoa m)"
      using inv by (simp add: v_inv_def defaultUniqueNameFunc_def sn attempts_find f uniqueName.simps)
    have "define_name U h' ?g (gs ''v'') False = define_name U h' ?g (gs ''v'' @ itoa m) False"
      by (subst define_name.simps) (simp add: dv un)
    also have "\<dots> = Some (Inr (gs ''v'' @ itoa m), set_def h' a (gs ''v'' @ itoa m))"
      using define_name_free [OF nm] by simp
    finally show ?thesis
      using m by (simp add: Claim_def sn Suc v_names_nth)
  qed
qed

lemma v_inv_step:
  assumes "v_inv h a j h'" "j < 1000"
  shows "v_inv h a (Suc j) (set_def h' a (v_names ! j))"
  using assms by (auto simp: v_inv_def set_def_def take_Suc_conv_app_nth v_names_length)

lemma v_full:
  assumes inv: "v_inv h a 1000 h'"
  shows "Claim U h' (SRef a None) (gs ''v'') = Some (Inl (NoUniqueName (gs ''v'') maxAttempts), h')"
proof -
  let ?g = "SRef a None"
  have sn: "safeName U h' ?g (gs ''v'') = gs ''v''"
    using inv by (simp add: v_inv_def sanitize_v safeName.simps)
  have d: "defined h' ?g n False \<longleftrightarrow> n \<in> set v_names" for n
    using inv by (simp add: v_inv_def v_names_length defined.simps)
  have f: "List.find (\<lambda>i. \<not> defined h' ?g (gs ''v'' @ itoa i) False) [0..<maxAttempts] = None"
    by (auto simp: find_None_iff d v_names_def)
  have un: "uniqueName U h' ?g (gs ''v'') False = Inl (NoUniqueName (gs ''v'') maxAttempts)"
    using inv by (simp add: v_inv_def defaultUniqueNameFunc_def sn attempts_find f uniqueName.simps)
  have dv: "defined h' ?g (gs ''v'') False" by (simp add: d v_names_def)
  show ?thesis
    unfolding Claim_def sn by (subst define_name.simps) (simp add: dv un)
qed

lemma Claim_repeat_v:
  assumes "h a = zero_Scope" "k \<le> 1000"
  shows "\<exists>h'. Claim_repeat U h (SRef a None) (gs ''v'') k = Some (take k v_names, h') \<and> v_inv h a k h'"
  using assms(2)
proof (induction k)
  case 0
  show ?case using assms(1) by (simp add: v_inv_def zero_Scope_def)
next
  case (Suc k)
  then obtain h' where r: "Claim_repeat U h (SRef a None) (gs ''v'') k = Some (take k v_names, h')"
    and i: "v_inv h a k h'" by auto
  from Suc.prems have k: "k < 1000" by simp
  from v_step [OF i k, of U] v_inv_step [OF i k] r k show ?case
    by (auto simp: take_Suc_conv_app_nth v_names_length)
qed

lemma define_name_retry:
  "defined h s n recursive \<Longrightarrow> uniqueName U h s n recursive = Inr n' \<Longrightarrow>
   define_name U h s n recursive = define_name U h s n' recursive"
  by (subst define_name.simps) simp

lemma define_name_fresh:
  "\<not> defined h s n recursive \<Longrightarrow> (recursive \<longrightarrow> distinct (chain s)) \<Longrightarrow>
   define_name U h s n recursive = Some (Inr n, claim_at h (targets s recursive) n)"
proof (induction s arbitrary: h)
  case (SRef a par)
  show ?case
  proof (cases "recursive \<and> par \<noteq> None")
    case False
    then have "targets (SRef a par) recursive = [a]"
      by (auto simp: targets_def)
    with False SRef.prems(1) show ?thesis
      by (subst define_name.simps) (auto simp: claim_at_single)
  next
    case True
    then obtain p where p: "par = Some p" and r: recursive by auto
    have dp: "distinct (chain p)" and ap: "a \<notin> set (chain p)"
      using SRef.prems(2) r p by auto
    have nd: "\<not> defined (set_def h a n) p n recursive"
      using SRef.prems(1) ap r unfolding defined_iff p by (auto simp: targets_def set_def_def)
    have "define_name U (set_def h a n) p n recursive =
            Some (Inr n, claim_at (set_def h a n) (targets p recursive) n)"
      by (rule SRef.IH [of p]) (use p nd dp in auto)
    with SRef.prems(1) r p show ?thesis
      by (subst define_name.simps) (simp add: claim_at_Cons targets_def)
  qed
qed

lemma define_name_success:
  assumes "define_name U h s n recursive = Some (Inr r, h')" "recursive \<longrightarrow> distinct (chain s)"
  shows "h' = claim_at h (targets s recursive) r" "\<not> defined h s r recursive"
  using define_name_result [OF assms(1)] assms(2) by auto

lemma define_name_abort:
  assumes "define_name U h s n recursive = Some (Inl e, h')" "recursive \<longrightarrow> distinct (chain s)"
  shows "h' = h"
  using define_name_result [OF assms(1)] assms(2) by auto

lemma local_set_claim_at:
  "local_set (claim_at h as n) a = (if a \<in> set as then insert n (local_set h a) else local_set h a)"
  by (auto simp: local_set_def claim_at_def)

lemma sanitize_panic: "defaultSafeNameFunc U (gs ''panic'') = gs ''_panic''"
  by (simp add: defaultSafeNameFunc_def gs_def strings_Map_def onlyValidIdentChars_def
        IsLetter_def IsNumber_def IsKeyword_def predeclared_def go_keywords_def
        predeclared_names_def)

lemma sanitize_upanic: "defaultSafeNameFunc U (gs ''_panic'') = gs ''_panic''"
  by (simp add: defaultSafeNameFunc_def gs_def strings_Map_def onlyValidIdentChars_def
        IsLetter_def IsNumber_def IsKeyword_def predeclared_def go_keywords_def
        predeclared_names_def)

lemma itoa_0: "itoa 0 = gs ''0''" and itoa_1: "itoa (Suc 0) = gs ''1''"
  by (simp_all add: itoa.simps gs_def)

lemma attempts_first:
  "\<not> defined h s (safe @ gs ''0'') recursive \<Longrightarrow>
   attempts h s name safe recursive 0 = Inr (safe @ gs ''0'')"
  by (subst attempts.simps) (simp add: maxAttempts_def itoa_0)

lemma attempts_second:
  "defined h s (safe @ gs ''0'') recursive \<Longrightarrow> \<not> defined h s (safe @ gs ''1'') recursive \<Longrightarrow>
   attempts h s name safe recursive 0 = Inr (safe @ gs ''1'')"
  by (subst attempts.simps, subst attempts.simps) (simp add: maxAttempts_def itoa_0 itoa_1)

lemma uniqueName_root:
  "uniqueNameFunc (h a) = None \<Longrightarrow> safeNameFunc (h a) = None \<Longrightarrow>
   uniqueName U h (SRef a None) n recursive =
     attempts h (SRef a None) n (defaultSafeNameFunc U n) recursive 0"
  by (simp add: uniqueName.simps defaultUniqueNameFunc_def safeName.simps)

lemma ClaimGlobal_panic_s1: "ClaimGlobal U fresh_store s1 (gs ''panic'') = Some (Inr (gs ''_panic''), claim_at fresh_store [1, 0] (gs ''_panic''))"
proof -
  have sn: "safeName U fresh_store s1 (gs ''panic'') = gs ''_panic''"
    by (simp add: s1_def g1_def fresh_store_def zero_Scope_def safeName.simps sanitize_panic)
  have nd: "\<not> defined fresh_store s1 (gs ''_panic'') True"
    by (simp add: s1_def g1_def fresh_store_def zero_Scope_def defined.simps)
  have "define_name U fresh_store s1 (gs ''_panic'') True = Some (Inr (gs ''_panic''), claim_at fresh_store (targets s1 True) (gs ''_panic''))"
    by (rule define_name_fresh [OF nd]) (simp add: s1_def g1_def)
  moreover have "targets s1 True = [1, 0]" by (simp add: targets_def s1_def g1_def)
  ultimately show ?thesis unfolding ClaimGlobal_def sn by simp
qed

lemma Claim_panic_g1: "Claim U (claim_at fresh_store [1, 0] (gs ''_panic'')) g1 (gs ''panic'') =
   Some (Inr (gs ''_panic0''), claim_at (claim_at fresh_store [1, 0] (gs ''_panic'')) [0] (gs ''_panic0''))"
proof -
  let ?h = "claim_at fresh_store [1, 0] (gs ''_panic'')"
  have sn: "safeName U ?h g1 n = defaultSafeNameFunc U n" for n
    by (simp add: g1_def fresh_store_def zero_Scope_def safeName.simps claim_at_def)
  have d: "defined ?h g1 n False \<longleftrightarrow> n = gs ''_panic''" for n
    by (auto simp: g1_def fresh_store_def zero_Scope_def defined.simps claim_at_def)
  have "uniqueName U ?h g1 (gs ''_panic'') False =
          attempts ?h g1 (gs ''_panic'') (defaultSafeNameFunc U (gs ''_panic'')) False 0"
    unfolding g1_def by (rule uniqueName_root) (simp_all add: claim_at_def fresh_store_def zero_Scope_def)
  also have "\<dots> = Inr (gs ''_panic'' @ gs ''0'')"
    unfolding sanitize_upanic by (rule attempts_first) (simp only: d, simp add: gs_def)
  finally have un: "uniqueName U ?h g1 (gs ''_panic'') False = Inr (gs ''_panic0'')"
    by (simp add: gs_def)
  have "define_name U ?h g1 (gs ''_panic'') False = define_name U ?h g1 (gs ''_panic0'') False"
    by (rule define_name_retry [OF _ un]) (simp only: d)
  also have "\<dots> = Some (Inr (gs ''_panic0''), claim_at ?h (targets g1 False) (gs ''_panic0''))"
    by (rule define_name_fresh) (simp only: d, simp add: gs_def, simp)
  finally show ?thesis
    unfolding Claim_def sn sanitize_panic by (simp add: targets_def g1_def)
qed

subsection \<open>The suggestion heuristic and the exported forms\<close>

lemma suggest_scan_words:
  "fst (suggest_scan U rest (IsUpper U (decode x)) buf) \<longleftrightarrow>
     \<not> (adjacent_upper U (x # rest) \<or> (\<exists>u \<in> set rest. decode u = RuneError))"
proof (induction rest arbitrary: x buf)
  case Nil
  show ?case by simp
next
  case (Cons y rest)
  show ?case
    using Cons [of y "if IsUpper U (decode y) then buf @ [Rune (ToLower U (decode y))] else buf"]
    by (auto simp: Let_def)
qed

lemma suggest_scan_buf:
  "fst (suggest_scan U rest u0 buf) \<Longrightarrow>
   snd (suggest_scan U rest u0 buf) =
     buf @ map (\<lambda>u. Rune (ToLower U (decode u))) (filter (\<lambda>u. IsUpper U (decode u)) rest)"
proof (induction rest arbitrary: u0 buf)
  case Nil
  show ?case by simp
next
  case (Cons y rest)
  then show ?case
    by (auto simp: Let_def split: if_splits)
qed

lemma IsUpper_RuneError: "\<not> IsUpper U RuneError" and IsLetter_RuneError: "\<not> IsLetter U RuneError"
  by (simp_all add: IsUpper_def IsLetter_def RuneError_def)

lemma trim_first_letter:
  "(let slice = TrimLeftFunc input (\<lambda>r. \<not> IsLetter U r); (r, size) = DecodeRuneInString slice
    in if r = RuneError then gs ''v'' else [Rune (ToLower U r)]) = first_letter U input"
proof -
  define sl where "sl = dropWhile (\<lambda>u. \<not> IsLetter U (decode u)) input"
  have "sl \<noteq> [] \<Longrightarrow> IsLetter U (decode (hd sl))"
    unfolding sl_def using hd_dropWhile [of "\<lambda>u. \<not> IsLetter U (decode u)" input] by blast
  then show ?thesis
    unfolding TrimLeftFunc_def first_letter_def sl_def [symmetric]
    using IsLetter_RuneError [of U] by (cases sl) auto
qed

lemma suggest_body_eq:
  "suggest_body U input =
     (if adjacent_upper U input \<or> (\<exists>u \<in> set (tl input). decode u = RuneError)
      then first_letter U input else initials U input)"
proof (cases input)
  case Nil
  show ?thesis
    by (simp add: Nil suggest_body_def initials_def)
next
  case (Cons x rest)
  let ?sc = "suggest_scan U rest (IsUpper U (decode x)) [Rune (ToLower U (decode x))]"
  have b: "suggest_body U input =
      (if fst ?sc then snd ?sc else first_letter U input)"
    using trim_first_letter [of input U]
    by (simp add: suggest_body_def Cons Let_def split_beta)
  show ?thesis
  proof (cases "fst ?sc")
    case True
    with suggest_scan_buf [OF True] suggest_scan_words [of U rest x "[Rune (ToLower U (decode x))]"] b
    show ?thesis by (simp add: Cons initials_def)
  next
    case False
    with suggest_scan_words [of U rest x "[Rune (ToLower U (decode x))]"] b
    show ?thesis by (simp add: Cons)
  qed
qed

lemma suggest_eq: "defaultSuggestVarNameFunc U input = suggest_as_amended U input"
  by (simp add: defaultSuggestVarNameFunc_def suggest_as_amended_def finish_def suggest_body_eq Let_def)

lemmas go_eval =
  gs_def strings_Map_def onlyValidIdentChars_def IsLetter_def IsNumber_def IsDigit_def
  IsUpper_def ToLower_def ToUpper_def RuneError_def IsKeyword_def predeclared_def
  go_keywords_def predeclared_names_def defaultSafeNameFunc_def TrimLeftFunc_def
  defaultSuggestVarNameFunc_def suggest_body_def IsIdentifier_def IsExported_def

lemma Suggest_examples:
  "defaultSuggestVarNameFunc U (gs ''a'') = gs ''a''"
  "defaultSuggestVarNameFunc U (gs ''aPerson'') = gs ''ap''"
  "defaultSuggestVarNameFunc U (gs ''HTTP'') = gs ''h''"
  "defaultSuggestVarNameFunc U (gs ''FxUxNxC'') = gs ''_func''"
  "defaultSuggestVarNameFunc U (gs ''_'') = gs ''v''"
  "defaultSuggestVarNameFunc U (gs ''TablePerson'') = gs ''tp''"
  by (simp_all add: go_eval)

lemma exported_dropWhile:
  "exported U name =
     (case dropWhile (no_public U) name of
        [] \<Rightarrow> Inl NoUppercaseLetters
      | u # rest \<Rightarrow>
          Inr (if IsUpper U (decode u) then u # rest else Rune (ToUpper U (decode u)) # rest))"
proof (induction name)
  case Nil
  show ?case by (subst exported.simps) simp
next
  case (Cons u rest)
  show ?case
    by (subst exported.simps) (simp add: Cons IsExported_def no_public_def [of U u] Let_def)
qed

lemma Exported_examples:
  "Exported U (gs ''x'') = Inr (gs ''X'')"
  "Exported U (gs ''X'') = Inr (gs ''X'')"
  "Exported U (gs ''_X'') = Inr (gs ''X'')"
  "Exported U (gs ''_'') = Inl (NoExportedForm (gs ''_''))"
  "Exported U [] = Inl (NotValidIdentifier [])"
  by (simp_all add: Exported_def exported_dropWhile no_public_def go_eval)

lemma Unexported_Func:
  "IsIdentifier U (gs ''Func'')"
  "Unexported U (gs ''Func'') = Inr (gs ''func'')"
  "Unexported U (gs ''func'') = Inl (NotValidIdentifier (gs ''func''))"
  by (simp_all add: Unexported_def unexported_def go_eval)

lemma ident_runes_weaken: "ident_runes U b s \<Longrightarrow> ident_runes U False s"
  by (cases s) (auto simp: Let_def split: if_splits)

lemma ident_runes_dropWhile: "ident_runes U b s \<Longrightarrow> ident_runes U False (dropWhile P s)"
proof (induction s arbitrary: b)
  case Nil
  show ?case by simp
next
  case (Cons u s)
  then have t: "ident_runes U False s" by (auto simp: Let_def split: if_splits)
  from Cons.prems have "ident_runes U False (u # s)"
    by (rule ident_runes_weaken)
  with Cons.IH [OF t] show ?case by simp
qed

lemma upper_not_keyword: "IsUpper U r \<Longrightarrow> \<not> IsKeyword (Rune r # rest)"
  using IsKeyword_head [of "Rune r # rest"] by (auto simp: IsUpper_def split: if_splits)

lemma exported_result:
  assumes up: "\<forall>r. IsUpper U r \<longrightarrow> IsLetter U r"
    and id: "IsIdentifier U x" and e: "exported U x = Inr r"
  shows "IsIdentifier U r \<and> IsExported U r"
proof -
  from id have ir: "ident_runes U True x" by (simp add: IsIdentifier_def split: if_splits)
  obtain u rest where d: "dropWhile (no_public U) x = u # rest"
    using e by (cases "dropWhile (no_public U) x") (auto simp: exported_dropWhile)
  from ident_runes_dropWhile [OF ir, of "no_public U"] d
  have t: "ident_runes U False rest" by (auto simp: Let_def split: if_splits)
  have np: "\<not> no_public U u"
    using hd_dropWhile [of "no_public U" x] d by auto
  show ?thesis
  proof (cases "IsUpper U (decode u)")
    case True
    with e d have r: "r = u # rest" by (simp add: exported_dropWhile)
    from True have "\<exists>c. u = Rune c" by (cases u) (auto simp: IsUpper_RuneError)
    then obtain c where c: "u = Rune c" ..
    with True up t upper_not_keyword [of U c rest] show ?thesis
      by (auto simp: r IsIdentifier_def IsExported_def Let_def)
  next
    case False
    with e d have r: "r = Rune (ToUpper U (decode u)) # rest" by (simp add: exported_dropWhile)
    from False np have "IsUpper U (ToUpper U (decode u))" by (simp add: no_public_def)
    with up t upper_not_keyword [of U "ToUpper U (decode u)" rest] show ?thesis
      by (auto simp: r IsIdentifier_def IsExported_def Let_def)
  qed
qed

lemma exported_fix: "name \<noteq> [] \<Longrightarrow> IsExported U name \<Longrightarrow> exported U name = Inr name"
  by (subst exported.simps) simp

lemma Exported_idem:
  assumes up: "\<forall>r. IsUpper U r \<longrightarrow> IsLetter U r" and e: "Exported U x = Inr r"
  shows "Exported U r = Inr r"
proof -
  from e have id: "IsIdentifier U x" and ex: "exported U x = Inr r"
    by (auto simp: Exported_def split: if_splits sum.splits)
  from exported_result [OF up id ex] have "IsIdentifier U r" "IsExported U r" by auto
  moreover from this have "r \<noteq> []" by (auto simp: IsIdentifier_def)
  ultimately show ?thesis by (simp add: Exported_def exported_fix)
qed

lemma unexported_idem:
  assumes lo: "\<forall>r. ToLower U (ToLower U r) = ToLower U r"
  shows "unexported U (unexported U x) = unexported U x"
  using lo by (cases x) (auto simp: unexported_def IsExported_def Let_def)

subsection \<open>Evaluations on small stores\<close>

lemma safeName_default:
  "safeNameFunc (h 0) = None \<Longrightarrow> safeNameFunc (h 1) = None \<Longrightarrow>
   safeName U h s1 n = defaultSafeNameFunc U n \<and> safeName U h g1 n = defaultSafeNameFunc U n"
  by (simp add: s1_def g1_def safeName.simps)

lemma uniqueName_s1:
  "uniqueNameFunc (h 0) = None \<Longrightarrow> uniqueNameFunc (h 1) = None \<Longrightarrow>
   safeNameFunc (h 0) = None \<Longrightarrow>
   uniqueName U h s1 n recursive = attempts h g1 n (defaultSafeNameFunc U n) recursive 0"
  by (simp add: s1_def g1_def uniqueName.simps defaultUniqueNameFunc_def safeName.simps)

lemma Claim_root_fresh:
  "safeNameFunc (h a) = None \<Longrightarrow> \<not> defined h (SRef a None) (defaultSafeNameFunc U raw) False \<Longrightarrow>
   Claim U h (SRef a None) raw =
     Some (Inr (defaultSafeNameFunc U raw), claim_at h [a] (defaultSafeNameFunc U raw))"
  using define_name_fresh [of h "SRef a None" "defaultSafeNameFunc U raw" False U]
  by (simp add: Claim_def safeName.simps targets_def)

lemma Claim_examples:
  "Claim U fresh_store g1 [] = Some (Inr (gs ''v''), claim_at fresh_store [0] (gs ''v''))"
  "Claim U fresh_store g1 (gs ''panic'') = Some (Inr (gs ''_panic''), claim_at fresh_store [0] (gs ''_panic''))"
  "Claim U fresh_store g1 (gs ''func'') = Some (Inr (gs ''_func''), claim_at fresh_store [0] (gs ''_func''))"
  "Claim U fresh_store g1 (gs ''123'') = Some (Inr (gs ''_123''), claim_at fresh_store [0] (gs ''_123''))"
proof -
  have c: "Claim U fresh_store g1 raw =
     Some (Inr (defaultSafeNameFunc U raw), claim_at fresh_store [0] (defaultSafeNameFunc U raw))" for raw
    unfolding g1_def
    by (rule Claim_root_fresh) (simp_all add: fresh_store_def zero_Scope_def defined.simps)
  have s: "defaultSafeNameFunc U [] = gs ''v''" "defaultSafeNameFunc U (gs ''panic'') = gs ''_panic''"
    "defaultSafeNameFunc U (gs ''func'') = gs ''_func''" "defaultSafeNameFunc U (gs ''123'') = gs ''_123''"
    by (simp_all add: go_eval)
  show "Claim U fresh_store g1 [] = Some (Inr (gs ''v''), claim_at fresh_store [0] (gs ''v''))"
    "Claim U fresh_store g1 (gs ''panic'') = Some (Inr (gs ''_panic''), claim_at fresh_store [0] (gs ''_panic''))"
    "Claim U fresh_store g1 (gs ''func'') = Some (Inr (gs ''_func''), claim_at fresh_store [0] (gs ''_func''))"
    "Claim U fresh_store g1 (gs ''123'') = Some (Inr (gs ''_123''), claim_at fresh_store [0] (gs ''_123''))"
    unfolding c s by simp_all
qed

lemma v_store_full:
  "Claim U v_store g1 (gs ''v'') = Some (Inl (NoUniqueName (gs ''v'') 999), v_store)"
proof -
  have "v_inv fresh_store 0 1000 v_store"
    by (simp add: v_inv_def v_store_def zero_Scope_def v_names_length)
  from v_full [OF this, of U] show ?thesis by (simp add: g1_def maxAttempts_def)
qed

subsection \<open>Repeated claims on a root and on a derived scope\<close>

lemma unique_name_cap_root:
  "defaultUniqueNameFunc U h s name recursive =
     (case List.find (\<lambda>i. \<not> defined h s (safeName U h s name @ itoa i) recursive) [0..<999] of
        Some i \<Rightarrow> Inr (safeName U h s name @ itoa i)
      | None \<Rightarrow> Inl (NoUniqueName name 999)) \<and>
   (h0 a = zero_Scope \<longrightarrow>
      (\<exists>h1. Claim_repeat U h0 (SRef a None) (gs ''v'') 1000 =
              Some (gs ''v'' # map (\<lambda>i. gs ''v'' @ itoa i) [0..<999], h1) \<and>
            distinct (gs ''v'' # map (\<lambda>i. gs ''v'' @ itoa i) [0..<999]) \<and>
            length (gs ''v'' # map (\<lambda>i. gs ''v'' @ itoa i) [0..<999]) = 1000 \<and>
            Claim U h1 (SRef a None) (gs ''v'') = Some (Inl (NoUniqueName (gs ''v'') 999), h1)))"
proof -
  have g: "defaultUniqueNameFunc U h s name recursive =
     (case List.find (\<lambda>i. \<not> defined h s (safeName U h s name @ itoa i) recursive) [0..<999] of
        Some i \<Rightarrow> Inr (safeName U h s name @ itoa i)
      | None \<Rightarrow> Inl (NoUniqueName name 999))"
    using attempts_find [of 0 h s name "safeName U h s name" recursive, unfolded maxAttempts_def]
    by (simp add: defaultUniqueNameFunc_def)
  have v: "v_names = gs ''v'' # map (\<lambda>i. gs ''v'' @ itoa i) [0..<999]"
    by (simp add: v_names_def maxAttempts_def)
  have r: "\<exists>h1. Claim_repeat U h0 (SRef a None) (gs ''v'') 1000 = Some (v_names, h1) \<and>
            distinct v_names \<and> length v_names = 1000 \<and>
            Claim U h1 (SRef a None) (gs ''v'') = Some (Inl (NoUniqueName (gs ''v'') 999), h1)"
    if z: "h0 a = zero_Scope"
  proof -
    from Claim_repeat_v [of h0 a 1000 U] z obtain h1 where
      c: "Claim_repeat U h0 (SRef a None) (gs ''v'') 1000 = Some (take 1000 v_names, h1)"
      and i: "v_inv h0 a 1000 h1" by auto
    from v_full [OF i, of U] c show ?thesis
      by (auto simp: v_names_length v_names_distinct maxAttempts_def)
  qed
  from g r show ?thesis unfolding v by blast
qed

lemma v_zeros_Suc: "v_zeros (Suc k) = v_zeros k @ gs ''0''"
  by (simp add: v_zeros_def gs_def replicate_append_same)

lemma v_zeros_inj: "v_zeros i = v_zeros k \<longleftrightarrow> i = k"
proof
  assume "v_zeros i = v_zeros k"
  then have "length (v_zeros i) = length (v_zeros k)" by simp
  then show "i = k" by (simp add: v_zeros_def)
qed simp

lemma v_zeros_0: "v_zeros 0 = gs ''v''"
  by (simp add: v_zeros_def)

lemma v_zeros_not_reserved: "\<not> IsKeyword (v_zeros k)" "\<not> predeclared (v_zeros k)"
proof -
  have "rest = gs ''ar''" if "IsKeyword (Rune 0x76 # rest)" for rest
    using that unfolding IsKeyword_def go_keywords_def by (auto simp: gs_def)
  from this [of "replicate k (Rune 0x30)"] show "\<not> IsKeyword (v_zeros k)"
    by (cases k) (auto simp: v_zeros_def gs_def)
  have "False" if "predeclared (Rune 0x76 # rest)" for rest
    using that unfolding predeclared_def predeclared_names_def by (auto simp: gs_def)
  from this [of "replicate k (Rune 0x30)"] show "\<not> predeclared (v_zeros k)"
    by (auto simp: v_zeros_def gs_def)
qed

lemma sanitize_v_zeros: "defaultSafeNameFunc U (v_zeros k) = v_zeros k"
proof (rule sanitize_fixed)
  show "all_valid U (v_zeros k)"
    by (simp add: all_valid_def v_zeros_def gs_def valid_ident_rune_def IsLetter_def IsNumber_def
        list_all_iff)
  show "v_zeros k \<noteq> []" by (simp add: v_zeros_def gs_def)
  show "\<not> IsKeyword (v_zeros k)" "\<not> predeclared (v_zeros k)"
    by (rule v_zeros_not_reserved)+
  show "IsLetter U (decode (hd (v_zeros k))) \<or> decode (hd (v_zeros k)) = 0x5F"
    by (simp add: v_zeros_def gs_def IsLetter_def)
qed

lemma define_v_zeros:
  assumes inv: "z_inv j h"
  shows "i \<le> j \<Longrightarrow>
    define_name U h s1 (v_zeros i) False = Some (Inr (v_zeros j), set_def h 1 (v_zeros j))"
proof (induction "j - i" arbitrary: i)
  case 0
  then have i: "i = j" by simp
  have "\<not> defined h s1 (v_zeros j) False"
    using inv by (auto simp: s1_def defined.simps z_inv_def v_zeros_inj)
  from define_name_free [OF this, of U] show ?case by (simp add: i s1_def)
next
  case (Suc d)
  then have lt: "i < j" and d: "d = j - Suc i" and le: "Suc i \<le> j" by simp_all
  have dv: "defined h s1 (v_zeros i) False"
    using inv lt by (simp add: s1_def defined.simps z_inv_def)
  have "uniqueName U h s1 (v_zeros i) False =
          attempts h g1 (v_zeros i) (defaultSafeNameFunc U (v_zeros i)) False 0"
    by (rule uniqueName_s1) (use inv in \<open>simp_all add: z_inv_def\<close>)
  also have "\<dots> = Inr (v_zeros i @ gs ''0'')"
    unfolding sanitize_v_zeros
    by (rule attempts_first) (use inv in \<open>simp add: g1_def defined.simps z_inv_def\<close>)
  finally have un: "uniqueName U h s1 (v_zeros i) False = Inr (v_zeros (Suc i))"
    by (simp add: v_zeros_Suc)
  have "define_name U h s1 (v_zeros i) False = define_name U h s1 (v_zeros (Suc i)) False"
    by (rule define_name_retry [OF dv un])
  also have "\<dots> = Some (Inr (v_zeros j), set_def h 1 (v_zeros j))"
    by (rule Suc.hyps(1) [OF d le])
  finally show ?case .
qed

lemma z_inv_step: "z_inv j h \<Longrightarrow> z_inv (Suc j) (set_def h 1 (v_zeros j))"
  by (auto simp: z_inv_def set_def_def lessThan_Suc)

lemma Claim_v_zeros:
  assumes "z_inv j h"
  shows "Claim U h s1 (gs ''v'') = Some (Inr (v_zeros j), set_def h 1 (v_zeros j))"
proof -
  have "safeName U h s1 (gs ''v'') = v_zeros 0"
    using assms by (simp add: s1_def g1_def safeName.simps z_inv_def sanitize_v v_zeros_0)
  with define_v_zeros [OF assms, of 0 U] show ?thesis by (simp add: Claim_def)
qed

lemma Claim_repeat_v_zeros:
  "\<exists>h. Claim_repeat U fresh_store s1 (gs ''v'') k = Some (map v_zeros [0..<k], h) \<and> z_inv k h"
proof (induction k)
  case 0
  show ?case by (simp add: z_inv_def fresh_store_def zero_Scope_def)
next
  case (Suc k)
  then obtain h where r: "Claim_repeat U fresh_store s1 (gs ''v'') k = Some (map v_zeros [0..<k], h)"
    and i: "z_inv k h" by blast
  from Claim_v_zeros [OF i, of U] z_inv_step [OF i] r show ?case by simp
qed

lemma root_full_first:
  "Claim U root_full s1 (gs ''v'') = Some (Inr (gs ''v''), claim_at root_full [1] (gs ''v''))"
proof -
  have sn: "safeName U root_full s1 (gs ''v'') = gs ''v''"
    by (simp add: s1_def g1_def safeName.simps root_full_def zero_Scope_def sanitize_v)
  have nd: "\<not> defined root_full s1 (gs ''v'') False"
    by (simp add: s1_def defined.simps root_full_def zero_Scope_def)
  from define_name_fresh [OF nd, of U] show ?thesis
    unfolding Claim_def sn by (simp add: targets_def s1_def)
qed

lemma root_full_second:
  "Claim U (claim_at root_full [1] (gs ''v'')) s1 (gs ''v'') =
     Some (Inl (NoUniqueName (gs ''v'') 999), claim_at root_full [1] (gs ''v''))"
proof -
  let ?h = "claim_at root_full [1] (gs ''v'')"
  have p: "safeNameFunc (?h a) = None" "uniqueNameFunc (?h a) = None" for a
    by (simp_all add: claim_at_def root_full_def zero_Scope_def)
  have sn: "safeName U ?h s1 (gs ''v'') = gs ''v''"
    using safeName_default [where h = ?h and U = U and n = "gs ''v''", OF p(1) p(1)]
    by (simp add: sanitize_v)
  have dv: "defined ?h s1 (gs ''v'') False"
    by (simp add: s1_def defined.simps claim_at_def)
  have d0: "defined ?h g1 n False \<longleftrightarrow> n \<in> set v_names" for n
    by (simp add: g1_def defined.simps claim_at_def root_full_def zero_Scope_def)
  have f: "List.find (\<lambda>i. \<not> defined ?h g1 (gs ''v'' @ itoa i) False) [0..<maxAttempts] = None"
    unfolding find_None_iff d0 by (auto simp: v_names_def)
  have un: "uniqueName U ?h s1 (gs ''v'') False = Inl (NoUniqueName (gs ''v'') 999)"
    unfolding uniqueName_s1 [OF p(2) p(2) p(1)] sanitize_v
    using attempts_find [of 0 ?h g1 "gs ''v''" "gs ''v''" False, unfolded maxAttempts_def]
      f [unfolded maxAttempts_def]
    by simp
  show ?thesis
    unfolding Claim_def sn by (subst define_name.simps) (simp only: dv un, simp)
qed

subsection \<open>Further facts about the sanitizer and the frame of a local claim\<close>

lemma sanitize_as_claimed_agrees:
  assumes "\<forall>u \<in> set s. IsNumber U (decode u) = IsDigit U (decode u)"
  shows "defaultSafeNameFunc U s = sanitize_as_claimed U s"
proof -
  have "filter (\<lambda>u. valid_ident_rune U (decode u)) s =
        filter (\<lambda>u. IsLetter U (decode u) \<or> IsDigit U (decode u) \<or> decode u = 0x5F) s"
    using assms by (intro filter_cong) (auto simp: valid_ident_rune_def)
  then show ?thesis
    by (auto simp: sanitize_cases sanitize_as_claimed_def strings_Map_filter Let_def gs_def)
qed

lemma Claim_frame:
  assumes "Claim U h n raw = Some (res, h')" "a \<noteq> addr n"
  shows "h' a = h a"
proof -
  from assms(1) have run: "define_name U h n (safeName U h n raw) False = Some (res, h')"
    by (simp add: Claim_def)
  from define_name_result [OF run] assms(2) show ?thesis
    by (auto simp: targets_def claim_at_def)
qed

lemma Suggest_default: "Suggest U fresh_store g1 input = defaultSuggestVarNameFunc U input"
  by (simp add: Suggest_def g1_def fresh_store_def zero_Scope_def)

section \<open>The claims\<close>

text \<open>
  Claim C1. A \<^verbatim>\<open>ClaimGlobal\<close> that returns has checked the whole chain of ancestors:
  the name \<open>r\<close> it returns was in the local set of no scope of the chain before the
  call, and is in the local set of the scope and of every ancestor up to the root after
  it. The chain is that of a tree: its addresses are pairwise distinct. In the scenario
  of the test, \<^verbatim>\<open>s1.ClaimGlobal("panic")\<close> returns \<^verbatim>\<open>_panic\<close> and writes it to both
  scopes, after which \<^verbatim>\<open>g1.Claim("panic")\<close> returns \<^verbatim>\<open>_panic0\<close>.
\<close>

theorem ClaimGlobal_whole_chain:
  "(distinct (chain n) \<and> ClaimGlobal U h n raw = Some (Inr r, h') \<longrightarrow>
      (\<forall>a \<in> set (chain n). r \<notin> local_set h a \<and> r \<in> local_set h' a)) \<and>
   ClaimGlobal U fresh_store s1 (gs ''panic'') =
     Some (Inr (gs ''_panic''), claim_at fresh_store [1, 0] (gs ''_panic'')) \<and>
   Claim U (claim_at fresh_store [1, 0] (gs ''_panic'')) g1 (gs ''panic'') =
     Some (Inr (gs ''_panic0''),
           claim_at (claim_at fresh_store [1, 0] (gs ''_panic'')) [0] (gs ''_panic0''))"
proof -
  have "\<forall>a \<in> set (chain n). r \<notin> local_set h a \<and> r \<in> local_set h' a"
    if d: "distinct (chain n)" and c: "ClaimGlobal U h n raw = Some (Inr r, h')"
  proof -
    from c have run: "define_name U h n (safeName U h n raw) True = Some (Inr r, h')"
      by (simp add: ClaimGlobal_def)
    from define_name_success [OF run] d
    have h': "h' = claim_at h (chain n) r" and nd: "\<not> defined h n r True"
      by (simp_all add: targets_def)
    from nd have "\<forall>a \<in> set (chain n). r \<notin> local_set h a"
      by (simp add: defined_iff targets_def local_set_def)
    then show ?thesis by (simp add: h' local_set_claim_at)
  qed
  then show ?thesis
    using ClaimGlobal_panic_s1 [of U] Claim_panic_g1 [of U] by blast
qed

theorem ClaimGlobal_whole_chain_witness:
  "distinct (chain s1) \<and>
   ClaimGlobal ascii_only fresh_store s1 (gs ''panic'') =
     Some (Inr (gs ''_panic''), claim_at fresh_store [1, 0] (gs ''_panic'')) \<and>
   gs ''_panic'' \<notin> local_set fresh_store 0 \<and>
   gs ''_panic'' \<notin> local_set fresh_store 1 \<and>
   gs ''_panic'' \<in> local_set (claim_at fresh_store [1, 0] (gs ''_panic'')) 0 \<and>
   gs ''_panic'' \<in> local_set (claim_at fresh_store [1, 0] (gs ''_panic'')) 1"
proof -
  have d: "distinct (chain s1)" and c: "chain s1 = [1, 0]"
    by (simp_all add: s1_def g1_def)
  have e: "ClaimGlobal ascii_only fresh_store s1 (gs ''panic'') =
     Some (Inr (gs ''_panic''), claim_at fresh_store [1, 0] (gs ''_panic''))"
    by (rule ClaimGlobal_panic_s1)
  from ClaimGlobal_whole_chain [of s1 ascii_only fresh_store "gs ''panic''" "gs ''_panic''"
      "claim_at fresh_store [1, 0] (gs ''_panic'')"] d e
  have "\<forall>a \<in> set (chain s1). gs ''_panic'' \<notin> local_set fresh_store a \<and>
          gs ''_panic'' \<in> local_set (claim_at fresh_store [1, 0] (gs ''_panic'')) a"
    by blast
  with d e show ?thesis unfolding c by simp
qed

text \<open>
  Claim C2. \<^verbatim>\<open>Claim\<close> is to read and write the local set of its own scope only. It
  writes nothing else (lemma \<open>Claim_frame\<close>), and the test that accepts a name looks at
  the scope alone. But when the sanitized name is taken, the walk up the parents in
  \<^verbatim>\<open>uniqueName\<close> hands the root, not the claiming scope, to
  \<^verbatim>\<open>defaultUniqueNameFunc\<close>, whose candidates are then tested against the local set of
  the root. The two stores below agree on the cell of the child \<open>s1\<close> and differ in
  the local set of the root only; \<^verbatim>\<open>s1.Claim("v")\<close> returns \<^verbatim>\<open>v0\<close> in one and \<^verbatim>\<open>v1\<close>
  in the other, although \<^verbatim>\<open>v0\<close> is free in the child in both.
\<close>

theorem Claim_child_reads_root:
  "child_v_root_v0 1 = child_v 1 \<and>
   gs ''v0'' \<notin> local_set child_v_root_v0 1 \<and>
   Claim U child_v s1 (gs ''v'') = Some (Inr (gs ''v0''), claim_at child_v [1] (gs ''v0'')) \<and>
   Claim U child_v_root_v0 s1 (gs ''v'') =
     Some (Inr (gs ''v1''), claim_at child_v_root_v0 [1] (gs ''v1''))"
proof -
  have cells: "child_v_root_v0 1 = child_v 1"
    by (simp add: child_v_root_v0_def claim_at_def)
  have dB: "defs (child_v a) n = Some True \<longleftrightarrow> a = 1 \<and> n = gs ''v''" for a n
    by (simp add: child_v_def claim_at_def fresh_store_def zero_Scope_def)
  have dA: "defs (child_v_root_v0 a) n = Some True \<longleftrightarrow>
      a = 1 \<and> n = gs ''v'' \<or> a = 0 \<and> n = gs ''v0''" for a n
    by (auto simp: child_v_root_v0_def claim_at_def dB)
  have pB: "safeNameFunc (child_v a) = None" "uniqueNameFunc (child_v a) = None" for a
    by (simp_all add: child_v_def claim_at_def fresh_store_def zero_Scope_def)
  have pA: "safeNameFunc (child_v_root_v0 a) = None" "uniqueNameFunc (child_v_root_v0 a) = None" for a
    by (simp_all add: child_v_root_v0_def claim_at_def pB)
  have snB: "safeName U child_v s1 (gs ''v'') = gs ''v''"
    using safeName_default [where h = child_v and U = U and n = "gs ''v''", OF pB(1) pB(1)]
    by (simp add: sanitize_v)
  have snA: "safeName U child_v_root_v0 s1 (gs ''v'') = gs ''v''"
    using safeName_default [where h = child_v_root_v0 and U = U and n = "gs ''v''", OF pA(1) pA(1)]
    by (simp add: sanitize_v)
  have free: "gs ''v0'' \<notin> local_set child_v_root_v0 1"
    by (simp add: local_set_def dA gs_def)
  have d1: "defined h s1 n False \<longleftrightarrow> defs (h 1) n = Some True"
    and d0: "defined h g1 n False \<longleftrightarrow> defs (h 0) n = Some True" for h n
    by (simp_all add: s1_def g1_def defined.simps)
  have B: "Claim U child_v s1 (gs ''v'') = Some (Inr (gs ''v0''), claim_at child_v [1] (gs ''v0''))"
  proof -
    have un: "uniqueName U child_v s1 (gs ''v'') False = Inr (gs ''v'' @ gs ''0'')"
      unfolding uniqueName_s1 [OF pB(2) pB(2) pB(1)] sanitize_v
      by (rule attempts_first) (simp add: d0 dB)
    have "define_name U child_v s1 (gs ''v'') False = define_name U child_v s1 (gs ''v'' @ gs ''0'') False"
      by (rule define_name_retry [OF _ un]) (simp add: d1 dB)
    also have "\<dots> = Some (Inr (gs ''v'' @ gs ''0''), claim_at child_v (targets s1 False) (gs ''v'' @ gs ''0''))"
      by (rule define_name_fresh) (simp add: d1 dB, simp add: gs_def, simp)
    finally show ?thesis
      unfolding Claim_def snB by (simp add: targets_def s1_def gs_def)
  qed
  have A: "Claim U child_v_root_v0 s1 (gs ''v'') =
     Some (Inr (gs ''v1''), claim_at child_v_root_v0 [1] (gs ''v1''))"
  proof -
    have un: "uniqueName U child_v_root_v0 s1 (gs ''v'') False = Inr (gs ''v'' @ gs ''1'')"
      unfolding uniqueName_s1 [OF pA(2) pA(2) pA(1)] sanitize_v
      by (rule attempts_second) (simp add: d0 dA gs_def, simp add: d0 dA, simp add: gs_def)
    have "define_name U child_v_root_v0 s1 (gs ''v'') False =
            define_name U child_v_root_v0 s1 (gs ''v'' @ gs ''1'') False"
      by (rule define_name_retry [OF _ un]) (simp add: d1 dA)
    also have "\<dots> = Some (Inr (gs ''v'' @ gs ''1''),
        claim_at child_v_root_v0 (targets s1 False) (gs ''v'' @ gs ''1''))"
      by (rule define_name_fresh) (simp add: d1 dA, simp add: gs_def, simp)
    finally show ?thesis
      unfolding Claim_def snA by (simp add: targets_def s1_def gs_def)
  qed
  from cells free A B show ?thesis by simp
qed

text \<open>
  Claim C3. The sanitizer is to drop every code point that is not a letter, a digit or
  \<^verbatim>\<open>_\<close>, then to answer \<^verbatim>\<open>v\<close> for the empty string, to put \<^verbatim>\<open>_\<close> before a reserved
  word or predeclared name, and to put \<^verbatim>\<open>_\<close> before a leading character that is neither
  a letter nor \<^verbatim>\<open>_\<close>. The code follows these steps in this order (lemma
  \<open>sanitize_cases\<close>) and gives the four values of the test on an empty scope (lemma
  \<open>Claim_examples\<close>), but \<^verbatim>\<open>onlyValidIdentChars\<close> keeps the whole class
  \<^verbatim>\<open>unicode.Number\<close>, not the digits only: the two agree exactly on the strings whose
  numbers are all digits (lemma \<open>sanitize_as_claimed_agrees\<close>). On the letter \<^verbatim>\<open>a\<close>
  followed by U+00BD the code returns the input unchanged, which is not an identifier,
  where the steps as worded return \<^verbatim>\<open>a\<close>.
\<close>

theorem sanitizer_keeps_non_digit_number:
  "defaultSafeNameFunc number_half [Rune 0x61, Rune 0xBD] = [Rune 0x61, Rune 0xBD] \<and>
   sanitize_as_claimed number_half [Rune 0x61, Rune 0xBD] = gs ''a'' \<and>
   \<not> IsIdentifier number_half [Rune 0x61, Rune 0xBD]"
  by (simp add: number_half_def ascii_only_def sanitize_as_claimed_def go_eval)

text \<open>
  Claim C4. The default sanitizer is idempotent: sanitizing a string that is already the
  result of the sanitizer gives it back unchanged, whatever the input string (malformed
  input included) and whatever the Unicode tables beyond ASCII.
\<close>

theorem defaultSafeNameFunc_idempotent:
  "defaultSafeNameFunc U (defaultSafeNameFunc U s) = defaultSafeNameFunc U s"
proof -
  define n where "n = strings_Map (onlyValidIdentChars U) s"
  have v: "all_valid U n"
    by (simp add: n_def all_valid_Map)
  have c: "defaultSafeNameFunc U s =
     (if n = [] then gs ''v''
      else if IsKeyword n \<or> predeclared n then gs ''_'' @ n
      else if \<not> IsLetter U (decode (hd n)) \<and> decode (hd n) \<noteq> 0x5F then gs ''_'' @ n
      else n)"
    unfolding n_def by (rule sanitize_cases)
  have us: "all_valid U (gs ''_'' @ n)"
    using v by (simp add: all_valid_def gs_def valid_ident_rune_def)
  have p: "defaultSafeNameFunc U (gs ''_'' @ n) = gs ''_'' @ n"
    by (rule sanitize_fixed) (use us underscore_not_reserved in \<open>auto simp: gs_def\<close>)
  show ?thesis
  proof (cases "n = []")
    case True
    with c show ?thesis by (simp add: sanitize_v)
  next
    case False
    show ?thesis
    proof (cases "IsKeyword n \<or> predeclared n \<or>
                  (\<not> IsLetter U (decode (hd n)) \<and> decode (hd n) \<noteq> 0x5F)")
      case True
      with False c have "defaultSafeNameFunc U s = gs ''_'' @ n" by auto
      with p show ?thesis by simp
    next
      case F2: False
      with False c have "defaultSafeNameFunc U s = n" by auto
      moreover have "defaultSafeNameFunc U n = n"
        by (rule sanitize_fixed) (use v F2 False in auto)
      ultimately show ?thesis by simp
    qed
  qed
qed

theorem defaultSafeNameFunc_idempotent_witness:
  "defaultSafeNameFunc ascii_only (gs ''func'') = gs ''_func'' \<and>
   defaultSafeNameFunc ascii_only (gs ''_func'') = gs ''_func''"
proof -
  have e: "defaultSafeNameFunc ascii_only (gs ''func'') = gs ''_func''"
    by (simp add: defaultSafeNameFunc_def gs_def strings_Map_def onlyValidIdentChars_def
        IsLetter_def IsNumber_def IsKeyword_def predeclared_def go_keywords_def
        predeclared_names_def)
  from defaultSafeNameFunc_idempotent [of ascii_only "gs ''func''"] e show ?thesis
    by simp
qed

text \<open>
  Claim C5. Two successive local claims on the same scope that both return give two
  different names, and each returns a name that was not in the local set of the scope
  before its call. This holds for every pair of raw names (equal ones included) and for
  every policy, the default ones among them.
\<close>

theorem Claim_twice_distinct:
  "Claim U h n a = Some (Inr r1, h1) \<and> Claim U h1 n b = Some (Inr r2, h2) \<longrightarrow>
     r1 \<noteq> r2 \<and> r1 \<notin> local_set h (addr n) \<and> r2 \<notin> local_set h1 (addr n)"
proof
  assume c: "Claim U h n a = Some (Inr r1, h1) \<and> Claim U h1 n b = Some (Inr r2, h2)"
  then have run1: "define_name U h n (safeName U h n a) False = Some (Inr r1, h1)"
    and run2: "define_name U h1 n (safeName U h1 n b) False = Some (Inr r2, h2)"
    by (simp_all add: Claim_def)
  from define_name_success [OF run1]
  have h1: "h1 = claim_at h [addr n] r1" and n1: "\<not> defined h n r1 False"
    by (simp_all add: targets_def)
  from define_name_success [OF run2] have n2: "\<not> defined h1 n r2 False"
    by simp
  from n1 have a1: "r1 \<notin> local_set h (addr n)"
    by (simp add: defined_iff targets_def local_set_def)
  from n2 have a2: "r2 \<notin> local_set h1 (addr n)"
    by (simp add: defined_iff targets_def local_set_def)
  have "r1 \<in> local_set h1 (addr n)"
    by (simp add: h1 local_set_claim_at)
  with a1 a2 show "r1 \<noteq> r2 \<and> r1 \<notin> local_set h (addr n) \<and> r2 \<notin> local_set h1 (addr n)"
    by auto
qed

theorem Claim_twice_distinct_witness:
  "Claim ascii_only fresh_store g1 (gs ''panic'') =
     Some (Inr (gs ''_panic''), claim_at fresh_store [0] (gs ''_panic'')) \<and>
   Claim ascii_only (claim_at fresh_store [0] (gs ''_panic'')) g1 (gs ''func'') =
     Some (Inr (gs ''_func''),
           claim_at (claim_at fresh_store [0] (gs ''_panic'')) [0] (gs ''_func'')) \<and>
   gs ''_panic'' \<noteq> gs ''_func'' \<and>
   gs ''_panic'' \<notin> local_set fresh_store (addr g1) \<and>
   gs ''_func'' \<notin> local_set (claim_at fresh_store [0] (gs ''_panic'')) (addr g1)"
proof -
  let ?h1 = "claim_at fresh_store [0] (gs ''_panic'')"
  have s: "defaultSafeNameFunc ascii_only (gs ''func'') = gs ''_func''"
    by (simp add: go_eval)
  have a: "Claim ascii_only fresh_store g1 (gs ''panic'') = Some (Inr (gs ''_panic''), ?h1)"
    by (rule Claim_examples)
  have "Claim ascii_only ?h1 g1 (gs ''func'') =
     Some (Inr (defaultSafeNameFunc ascii_only (gs ''func'')),
           claim_at ?h1 [0] (defaultSafeNameFunc ascii_only (gs ''func'')))"
    unfolding g1_def
    by (rule Claim_root_fresh)
      (simp add: claim_at_def fresh_store_def zero_Scope_def, simp only: s,
       simp add: claim_at_def fresh_store_def zero_Scope_def defined.simps gs_def)
  then have b: "Claim ascii_only ?h1 g1 (gs ''func'') = Some (Inr (gs ''_func''), claim_at ?h1 [0] (gs ''_func''))"
    by (simp only: s)
  from Claim_twice_distinct a b show ?thesis by blast
qed

text \<open>
  Claim C6. The default unique-name generator is to try the base name followed by 0, 1,
  ... and to return the first candidate that is not claimed, panicking after 999
  attempts, so that a thousand calls of \<^verbatim>\<open>Claim("v")\<close> on a fresh scope with the default
  policies return a thousand different names and the call after them panics. The
  generator does so on the scope it is given, and the claim holds of a fresh root (lemma
  \<open>unique_name_cap_root\<close>). On a derived scope it is given the root, not the claiming
  scope (the walk up the parents in \<^verbatim>\<open>uniqueName\<close>, as in claim C2). On the fresh child
  \<open>s1\<close> of a fresh root 1001 calls all return, with \<^verbatim>\<open>v\<close>, \<^verbatim>\<open>v0\<close>, \<^verbatim>\<open>v00\<close>, ...: the
  candidate \<^verbatim>\<open>v0\<close> is free in the root every time and \<^verbatim>\<open>define\<close> asks again. On the
  fresh child of a root that holds \<^verbatim>\<open>v\<close>, \<^verbatim>\<open>v0\<close>, ..., \<^verbatim>\<open>v998\<close> the first call
  returns \<^verbatim>\<open>v\<close> and the second one panics.
\<close>

theorem Claim_v_derived_scope:
  "map_option fst (Claim_repeat U fresh_store s1 (gs ''v'') 1001) =
     Some (map (\<lambda>k. gs ''v'' @ replicate k (Rune 0x30)) [0..<1001]) \<and>
   map_option fst (Claim_repeat U fresh_store s1 (gs ''v'') 3) =
     Some [gs ''v'', gs ''v0'', gs ''v00''] \<and>
   Claim U root_full s1 (gs ''v'') =
     Some (Inr (gs ''v''), claim_at root_full [1] (gs ''v'')) \<and>
   Claim U (claim_at root_full [1] (gs ''v'')) s1 (gs ''v'') =
     Some (Inl (NoUniqueName (gs ''v'') 999), claim_at root_full [1] (gs ''v''))"
proof -
  have z: "v_zeros = (\<lambda>k. gs ''v'' @ replicate k (Rune 0x30))"
    by (rule ext) (simp add: v_zeros_def)
  have a: "map_option fst (Claim_repeat U fresh_store s1 (gs ''v'') k) = Some (map v_zeros [0..<k])"
    for k using Claim_repeat_v_zeros [of U k] by auto
  have t: "map v_zeros [0..<3] = [gs ''v'', gs ''v0'', gs ''v00'']"
    by (simp add: v_zeros_def gs_def upt_rec numeral_3_eq_3)
  from a [of 1001] a [of 3] root_full_first [of U] root_full_second [of U] show ?thesis
    unfolding t unfolding z by simp
qed

text \<open>
  Claim C7, as amended. The default suggestion is the lower-cased first character
  followed by the lower case of every later upper-case character; the pass is given up
  for the fallback (the first letter of the input in lower case, \<^verbatim>\<open>v\<close> when it has no
  letter) when two characters next to each other are both upper case or when a character
  after the first one does not decode, that is, decodes to U+FFFD. A result that is
  exactly \<^verbatim>\<open>_\<close> becomes \<^verbatim>\<open>v\<close>, and the result is sanitized. The five values of the
  claim hold.
\<close>

theorem Suggest_amended:
  "defaultSuggestVarNameFunc U input = suggest_as_amended U input \<and>
   Suggest U fresh_store g1 (gs ''a'') = gs ''a'' \<and>
   Suggest U fresh_store g1 (gs ''aPerson'') = gs ''ap'' \<and>
   Suggest U fresh_store g1 (gs ''HTTP'') = gs ''h'' \<and>
   Suggest U fresh_store g1 (gs ''FxUxNxC'') = gs ''_func'' \<and>
   Suggest U fresh_store g1 (gs ''_'') = gs ''v''"
  unfolding Suggest_default by (simp only: suggest_eq Suggest_examples [unfolded suggest_eq] simp_thms)

theorem Suggest_amended_witness:
  "defaultSuggestVarNameFunc ascii_only (gs ''TablePerson'') = gs ''tp'' \<and>
   suggest_as_amended ascii_only (gs ''TablePerson'') = gs ''tp''"
  using Suggest_amended [of ascii_only "gs ''TablePerson''"] Suggest_examples(6) [of ascii_only] by simp

text \<open>
  As first worded, the claim has the pass given up whenever the input is malformed. A
  first byte that does not decode does not give it up: on the byte \<^verbatim>\<open>0xFF\<close> followed by
  \<^verbatim>\<open>AbCd\<close> the code answers \<^verbatim>\<open>ac\<close>, the fallback would be \<^verbatim>\<open>a\<close>.
\<close>

theorem Suggest_malformed_first_counterexample:
  "defaultSuggestVarNameFunc ascii_only malformed_first = gs ''ac'' \<and>
   suggest_as_claimed ascii_only malformed_first = gs ''a''"
  by (simp add: malformed_first_def go_eval suggest_as_claimed_def finish_def first_letter_def
      initials_def ascii_only_def)

text \<open>
  Claim C8. \<^verbatim>\<open>Exported\<close> panics with the not-a-valid-identifier error exactly when its
  input is not an identifier (\<^verbatim>\<open>token.IsIdentifier\<close>). On an identifier it returns the
  input unchanged when it is already exported; otherwise it looks for the first
  character that is upper case or becomes upper case when capitalized, and returns the
  input from that character on, capitalized; when there is no such character it panics
  with the other error. The five values of the claim hold.
\<close>

theorem Exported_spec:
  "Exported U name =
     (if \<not> IsIdentifier U name then Inl (NotValidIdentifier name)
      else case dropWhile (no_public U) name of
             [] \<Rightarrow> Inl (NoExportedForm name)
           | u # rest \<Rightarrow>
               Inr (if IsUpper U (decode u) then u # rest
                    else Rune (ToUpper U (decode u)) # rest)) \<and>
   (Exported U name = Inl (NotValidIdentifier name)) = (\<not> IsIdentifier U name) \<and>
   (IsIdentifier U name \<and> IsExported U name \<longrightarrow> Exported U name = Inr name) \<and>
   Exported U (gs ''x'') = Inr (gs ''X'') \<and>
   Exported U (gs ''X'') = Inr (gs ''X'') \<and>
   Exported U (gs ''_X'') = Inr (gs ''X'') \<and>
   Exported U (gs ''_'') = Inl (NoExportedForm (gs ''_'')) \<and>
   Exported U [] = Inl (NotValidIdentifier [])"
proof -
  have a: "Exported U name =
     (if \<not> IsIdentifier U name then Inl (NotValidIdentifier name)
      else case dropWhile (no_public U) name of
             [] \<Rightarrow> Inl (NoExportedForm name)
           | u # rest \<Rightarrow>
               Inr (if IsUpper U (decode u) then u # rest
                    else Rune (ToUpper U (decode u)) # rest))"
  proof -
    define d where "d = dropWhile (no_public U) name"
    have "exported U name =
      (case d of [] \<Rightarrow> Inl NoUppercaseLetters
       | u # rest \<Rightarrow>
           Inr (if IsUpper U (decode u) then u # rest else Rune (ToUpper U (decode u)) # rest))"
      unfolding d_def by (rule exported_dropWhile)
    then show ?thesis
      unfolding d_def [symmetric] by (cases d) (simp_all add: Exported_def)
  qed
  have b: "(Exported U name = Inl (NotValidIdentifier name)) = (\<not> IsIdentifier U name)"
    by (simp add: Exported_def split: sum.splits)
  have c: "IsIdentifier U name \<and> IsExported U name \<longrightarrow> Exported U name = Inr name"
    by (auto simp: Exported_def exported_fix IsIdentifier_def)
  from a b c Exported_examples [of U] show ?thesis by simp
qed

theorem Exported_spec_witness:
  "IsIdentifier ascii_only (gs ''X'') \<and> IsExported ascii_only (gs ''X'') \<and>
   Exported ascii_only (gs ''X'') = Inr (gs ''X'')"
proof -
  have "IsIdentifier ascii_only (gs ''X'')" "IsExported ascii_only (gs ''X'')"
    by (simp_all add: go_eval)
  with Exported_spec [of ascii_only "gs ''X''"] show ?thesis by blast
qed

text \<open>
  Claim C9. A claim that panics has changed nothing: when \<^verbatim>\<open>Claim\<close> panics, or
  \<^verbatim>\<open>ClaimGlobal\<close> panics on a scope of a tree, the store at the moment of the panic is
  the store before the call, so every local set is what it was.
\<close>

theorem claim_abort_atomic:
  "Claim U h s raw = Some (Inl e, h') \<or>
   distinct (chain s) \<and> ClaimGlobal U h s raw = Some (Inl e, h') \<longrightarrow>
     h' = h \<and> (\<forall>a. local_set h' a = local_set h a)"
proof
  assume a: "Claim U h s raw = Some (Inl e, h') \<or>
   distinct (chain s) \<and> ClaimGlobal U h s raw = Some (Inl e, h')"
  from a have "h' = h"
  proof
    assume "Claim U h s raw = Some (Inl e, h')"
    then have "define_name U h s (safeName U h s raw) False = Some (Inl e, h')"
      by (simp add: Claim_def)
    then show ?thesis by (rule define_name_abort) simp
  next
    assume g: "distinct (chain s) \<and> ClaimGlobal U h s raw = Some (Inl e, h')"
    then have "define_name U h s (safeName U h s raw) True = Some (Inl e, h')"
      by (simp add: ClaimGlobal_def)
    then show ?thesis by (rule define_name_abort) (simp add: g)
  qed
  then show "h' = h \<and> (\<forall>a. local_set h' a = local_set h a)" by simp
qed

theorem claim_abort_atomic_witness:
  "distinct (chain g1) \<and>
   Claim ascii_only v_store g1 (gs ''v'') = Some (Inl (NoUniqueName (gs ''v'') 999), v_store) \<and>
   (\<forall>a. local_set v_store a = local_set v_store a)"
proof -
  have d: "distinct (chain g1)" by (simp add: g1_def)
  have c: "Claim ascii_only v_store g1 (gs ''v'') = Some (Inl (NoUniqueName (gs ''v'') 999), v_store)"
    by (rule v_store_full)
  from claim_abort_atomic [of ascii_only v_store g1 "gs ''v''" "NoUniqueName (gs ''v'') 999" v_store] d c
  show ?thesis by blast
qed

text \<open>
  Claim C10, as amended. When \<^verbatim>\<open>Unexported(x)\<close> returns \<open>y\<close> and \<open>y\<close> is again an
  identifier, \<^verbatim>\<open>Unexported(y)\<close> returns \<open>y\<close>; when \<^verbatim>\<open>Exported(z)\<close> returns \<open>r\<close>,
  \<^verbatim>\<open>Exported(r)\<close> returns \<open>r\<close>. The Unicode tables are taken to lower-case
  idempotently and to class every upper-case rune as a letter.
\<close>

theorem visibility_idempotent:
  "((\<forall>r. ToLower U (ToLower U r) = ToLower U r) \<and>
    Unexported U x = Inr y \<and> IsIdentifier U y \<longrightarrow> Unexported U y = Inr y) \<and>
   ((\<forall>r. IsUpper U r \<longrightarrow> IsLetter U r) \<and>
    Exported U z = Inr r \<longrightarrow> Exported U r = Inr r)"
proof -
  have "Unexported U y = Inr y"
    if "\<forall>r. ToLower U (ToLower U r) = ToLower U r" "Unexported U x = Inr y" "IsIdentifier U y"
  proof -
    from that(2) have "y = unexported U x"
      by (auto simp: Unexported_def split: if_splits)
    with unexported_idem [OF that(1), of x] that(3) show ?thesis
      by (simp add: Unexported_def)
  qed
  moreover have "Exported U r = Inr r"
    if "\<forall>r. IsUpper U r \<longrightarrow> IsLetter U r" "Exported U z = Inr r"
    using Exported_idem [OF that] .
  ultimately show ?thesis by blast
qed

theorem visibility_idempotent_witness:
  "Unexported ascii_only (gs ''X'') = Inr (gs ''x'') \<and>
   IsIdentifier ascii_only (gs ''x'') \<and>
   Unexported ascii_only (gs ''x'') = Inr (gs ''x'') \<and>
   Exported ascii_only (gs ''x'') = Inr (gs ''X'') \<and>
   Exported ascii_only (gs ''X'') = Inr (gs ''X'')"
proof -
  have lo: "\<forall>r. ToLower ascii_only (ToLower ascii_only r) = ToLower ascii_only r"
    by (auto simp: ToLower_def ascii_only_def RuneError_def)
  have up: "\<forall>r. IsUpper ascii_only r \<longrightarrow> IsLetter ascii_only r"
    by (auto simp: IsUpper_def IsLetter_def ascii_only_def)
  have u: "Unexported ascii_only (gs ''X'') = Inr (gs ''x'')" "IsIdentifier ascii_only (gs ''x'')"
    by (simp_all add: Unexported_def unexported_def go_eval)
  have e: "Exported ascii_only (gs ''x'') = Inr (gs ''X'')"
    by (rule Exported_examples)
  from visibility_idempotent [of ascii_only "gs ''X''" "gs ''x''" "gs ''x''" "gs ''X''"] lo up u e
  show ?thesis by blast
qed

text \<open>
  Without the condition on \<open>y\<close> the first half fails: \<^verbatim>\<open>Func\<close> is an identifier,
  \<^verbatim>\<open>Unexported("Func")\<close> is the keyword \<^verbatim>\<open>func\<close>, and \<^verbatim>\<open>Unexported("func")\<close> panics.
\<close>

theorem Unexported_keyword_counterexample:
  "IsIdentifier ascii_only (gs ''Func'') \<and>
   Unexported ascii_only (gs ''Func'') = Inr (gs ''func'') \<and>
   Unexported ascii_only (gs ''func'') = Inl (NotValidIdentifier (gs ''func''))"
  using Unexported_Func [of ascii_only] by simp

end
